theory Spec2Isabelle
  imports Main "HOL-Library.Product_Lexorder"
begin

section \<open>Data model\<close>

text \<open>
  A label volume is a numpy array of shape (M, N, P) holding non-negative region ids; it
  is modelled as the list of its M planes, each plane the list of its N rows, each row the
  list of its P ids. Ids are natural numbers: 0 is the background.
  A table read from or written to a text file is the list of its rows, in order.
\<close>

type_synonym plane = "nat list list"
type_synonym volume = "plane list"

datatype error = ValueError | IndexError | KeyError

text \<open>
  An array of arbitrary shape, for \<open>apply_segmentation_map\<close>, whose argument is
  documented as of arbitrary shape: a scalar, or an axis of sub-arrays.
\<close>

datatype 'a ndarray = Scalar 'a | Axis "'a ndarray list"

fun ravel :: "'a ndarray \<Rightarrow> 'a list" where
  "ravel (Scalar x) = [x]"
| "ravel (Axis xs) = concat (map ravel xs)"

section \<open>Helpers that are not part of imio.py\<close>

text \<open>
  \<open>serial_section_map\<close> calls \<open>morpho.remove_small_connected_components\<close>,
  \<open>evaluate.relabel_from_one\<close> and \<open>scipy.ndimage.measurements.label\<close>, and
  \<open>raveler_to_labeled_volume\<close> calls \<open>morpho.watershed\<close>. None of them is defined in
  imio.py, so the functions of imio.py take them as a parameter. \<open>relabel_from_one\<close>
  returns a triple (relabeled, forward map, inverse map) of which imio.py reads the first
  component and the length of the third; the type of the second is left open.
\<close>

record 'f helpers =
  remove_small_connected_components :: "plane \<Rightarrow> nat \<Rightarrow> plane"
  relabel_from_one :: "plane \<Rightarrow> plane \<times> 'f \<times> nat list"
  label :: "plane \<Rightarrow> plane \<times> nat"
  watershed :: "volume \<Rightarrow> volume \<Rightarrow> volume"

section \<open>apply\_segmentation\_map\<close>

text \<open>\<open>a.max()\<close> of a one-dimensional array: numpy raises ValueError on an empty one.\<close>

fun amax :: "nat list \<Rightarrow> error + nat" where
  "amax [] = Inl ValueError"
| "amax (x # xs) = Inr (fold max xs x)"

fun amin :: "nat list \<Rightarrow> error + nat" where
  "amin [] = Inl ValueError"
| "amin (x # xs) = Inr (fold min xs x)"

text \<open>
  \<open>forward_map[keys] = values\<close>: the pairs are stored in the order of the table, so the
  last pair of a repeated key is the one that stays.
\<close>

definition scatter :: "nat list \<Rightarrow> (nat \<times> nat) list \<Rightarrow> nat list" where
  "scatter forward_map pairs = fold (\<lambda>(k, v) a. a[k := v]) pairs forward_map"

text \<open>
  \<open>forward_map[superpixels]\<close>: an id that is not an index of \<open>forward_map\<close> raises
  IndexError.
\<close>

definition gather :: "nat list \<Rightarrow> nat ndarray \<Rightarrow> error + nat ndarray" where
  "gather forward_map superpixels =
     (if list_all (\<lambda>s. s < length forward_map) (ravel superpixels)
      then Inr (map_ndarray (\<lambda>s. forward_map ! s) superpixels)
      else Inl IndexError)"

definition apply_segmentation_map ::
    "nat ndarray \<Rightarrow> (nat \<times> nat) list \<Rightarrow> error + nat ndarray" where
  "apply_segmentation_map superpixels sp_to_body_map =
     (case amax (map fst sp_to_body_map) of
        Inl e \<Rightarrow> Inl e
      | Inr m \<Rightarrow>
          gather (scatter (replicate (m + 1) 0) sp_to_body_map) superpixels)"

section \<open>serial\_section\_map and raveler\_serial\_section\_map\<close>

definition label_fct :: "'f helpers \<Rightarrow> bool \<Rightarrow> plane \<Rightarrow> plane \<times> nat" where
  "label_fct h do_conn_comp a =
     (if do_conn_comp then label h a
      else (case relabel_from_one h a of (relabeled, fmap, imap) \<Rightarrow> (relabeled, length imap)))"

definition remove_small :: "'f helpers \<Rightarrow> nat \<Rightarrow> plane \<Rightarrow> plane" where
  "remove_small h min_size a = remove_small_connected_components h a min_size"

fun cumsum_from :: "nat \<Rightarrow> nat list \<Rightarrow> nat list" where
  "cumsum_from acc [] = []"
| "cumsum_from acc (x # xs) = (acc + x) # cumsum_from (acc + x) xs"

definition cumsum :: "nat list \<Rightarrow> nat list" where
  "cumsum xs = cumsum_from 0 xs"

definition start_ids_of :: "bool \<Rightarrow> nat list \<Rightarrow> nat list" where
  "start_ids_of globally_unique_ids nids_per_plane =
     (if globally_unique_ids then 0 # butlast (cumsum nids_per_plane)
      else replicate (length nids_per_plane) 0)"

text \<open>\<open>relabeled_plane + start_id\<close>: the scalar is added to every element of the plane.\<close>

definition add_scalar :: "plane \<Rightarrow> nat \<Rightarrow> plane" where
  "add_scalar relabeled_plane start_id = map (map (\<lambda>v. v + start_id)) relabeled_plane"

text \<open>
  With no plane at all, \<open>zip(*map(label_fct, mplanes))\<close> is empty and unpacking it into two
  names raises ValueError.
\<close>

definition serial_section_map ::
    "'f helpers \<Rightarrow> volume \<Rightarrow> nat \<Rightarrow> bool \<Rightarrow> bool \<Rightarrow> error + volume" where
  "serial_section_map h nd_map min_size do_conn_comp globally_unique_ids =
     (let mplanes = map (remove_small h min_size) nd_map;
          labeled = map (label_fct h do_conn_comp) mplanes
      in if labeled = [] then Inl ValueError
         else
           (let relabeled_planes = map fst labeled;
                nids_per_plane = map snd labeled;
                start_ids = start_ids_of globally_unique_ids nids_per_plane
            in Inr (map (\<lambda>(relabeled_plane, start_id). add_scalar relabeled_plane start_id)
                     (zip relabeled_planes start_ids))))"

definition any_zero :: "volume \<Rightarrow> bool" where
  "any_zero nd_map = (0 \<in> set (concat (concat nd_map)))"

text \<open>
  \<open>nd_map[:, 0, 0] = 0\<close>: IndexError when the planes have no row or no column.
\<close>

definition no_corner :: "plane \<Rightarrow> bool" where
  "no_corner p = (case p of [] \<Rightarrow> True | r # rs \<Rightarrow> r = [])"

definition set_corner :: "nat \<Rightarrow> plane \<Rightarrow> plane" where
  "set_corner v p = (case p of [] \<Rightarrow> [] | r # rs \<Rightarrow> (v # tl r) # rs)"

definition zero_corners :: "volume \<Rightarrow> error + volume" where
  "zero_corners nd_map =
     (if list_ex no_corner nd_map then Inl IndexError
      else Inr (map (set_corner 0) nd_map))"

definition raveler_serial_section_map ::
    "'f helpers \<Rightarrow> volume \<Rightarrow> nat \<Rightarrow> bool \<Rightarrow> bool \<Rightarrow> error + volume" where
  "raveler_serial_section_map h nd_map min_size do_conn_comp globally_unique_ids =
     (case serial_section_map h nd_map min_size do_conn_comp globally_unique_ids of
        Inl e \<Rightarrow> Inl e
      | Inr nd_map' \<Rightarrow> if \<not> any_zero nd_map' then zero_corners nd_map' else Inr nd_map')"

section \<open>segs\_to\_raveler\<close>

text \<open>
  \<open>unique\<close> of a Python list of tuples, as imio.py calls it (\<open>unique(zip(...))\<close> under
  Python 2): the numpy this code was written for returns \<open>sorted(set(ar))\<close> as an array,
  that is the distinct tuples in lexicographic order.
\<close>

definition unique :: "'a::linorder list \<Rightarrow> 'a list" where
  "unique ar = sort (remdups ar)"

text \<open>
  The body of the loop over the planes. \<open>segment_map_i *= sp_map_i.astype(bool)\<close> zeroes
  the segment id where the superpixel id is 0; \<open>valid\<close> is the elementwise or of
  \<open>sp_map_i != 0\<close> and \<open>segment_map_i == 0\<close> (on the product just computed); the rows of
  the plane are the distinct triples over the valid positions.
\<close>

definition mask_segment :: "nat \<times> nat \<Rightarrow> nat \<times> nat" where
  "mask_segment = (\<lambda>(s, g). (s, g * (if s \<noteq> 0 then 1 else 0)))"

definition valid :: "nat \<times> nat \<Rightarrow> bool" where
  "valid = (\<lambda>(s, g). s \<noteq> 0 \<or> g = 0)"

definition sp_to_segment_plane :: "nat \<Rightarrow> plane \<Rightarrow> plane \<Rightarrow> (nat \<times> nat \<times> nat) list" where
  "sp_to_segment_plane i sp_map_i segment_map_i =
     (let masked = map mask_segment (zip (concat sp_map_i) (concat segment_map_i))
      in unique (map (\<lambda>(s, g). (i, s, g)) (filter valid masked)))"

text \<open>
  The two planes multiplied elementwise must have one shape (the docstring gives both
  volumes the shape (M, N, P)); numpy raises ValueError for operands it cannot broadcast.
\<close>

definition same_shape :: "plane \<Rightarrow> plane \<Rightarrow> bool" where
  "same_shape a b = (map length a = map length b)"

definition segment_to_body_of :: "volume \<Rightarrow> volume \<Rightarrow> (nat \<times> nat) list" where
  "segment_to_body_of segment_map bodies =
     (let segment_to_body = unique (zip (concat (concat segment_map)) (concat (concat bodies)));
          segment_to_body = filter (\<lambda>(g, b). g \<noteq> 0) segment_to_body
      in (0, 0) # segment_to_body)"

text \<open>
  \<open>concatenate\<close> of an empty list of per-plane tables raises ValueError. The loop runs
  over \<open>zip(sps_out, segment_map, bodies)\<close>, which stops at the shortest of the three.
\<close>

definition sp_to_segment_of ::
    "volume \<Rightarrow> volume \<Rightarrow> volume \<Rightarrow> error + (nat \<times> nat \<times> nat) list" where
  "sp_to_segment_of sps_out segment_map bodies =
     (let planes = zip sps_out (zip segment_map bodies)
      in if planes = [] then Inl ValueError
         else if list_ex (\<lambda>(sp_map_i, segment_map_i, body_map_i).
                            \<not> same_shape sp_map_i segment_map_i) planes
         then Inl ValueError
         else Inr (concat (map (\<lambda>(i, sp_map_i, segment_map_i, body_map_i).
                                  sp_to_segment_plane i sp_map_i segment_map_i)
                            (enumerate 0 planes))))"

definition segs_to_raveler ::
    "'f helpers \<Rightarrow> volume \<Rightarrow> volume \<Rightarrow> nat \<Rightarrow> bool \<Rightarrow> volume option \<Rightarrow>
       error + (volume \<times> (nat \<times> nat \<times> nat) list \<times> (nat \<times> nat) list)" where
  "segs_to_raveler h sps bodies min_size do_conn_comp sps_out =
     (case (case sps_out of
              None \<Rightarrow> raveler_serial_section_map h sps min_size do_conn_comp False
            | Some given \<Rightarrow> Inr given) of
        Inl e \<Rightarrow> Inl e
      | Inr sps_out' \<Rightarrow>
          (case raveler_serial_section_map h bodies min_size do_conn_comp True of
             Inl e \<Rightarrow> Inl e
           | Inr segment_map \<Rightarrow>
               (case sp_to_segment_of sps_out' segment_map bodies of
                  Inl e \<Rightarrow> Inl e
                | Inr sp_to_segment \<Rightarrow>
                    Inr (sps_out', sp_to_segment, segment_to_body_of segment_map bodies))))"

section \<open>raveler\_to\_labeled\_volume\<close>

text \<open>
  The function reads the superpixel planes and the two tables from an export directory;
  the model starts from the three values read. The dictionary \<open>sp2seg\<close> maps a plane
  number to an array of length \<open>max_sp + 1\<close>, created when the plane number is first met.
\<close>

definition sp2seg_of :: "nat \<Rightarrow> (nat \<times> nat \<times> nat) list \<Rightarrow> (nat \<rightharpoonup> nat list)" where
  "sp2seg_of max_sp sp2seg_list =
     fold (\<lambda>(z, sp, seg) sp2seg.
             (case sp2seg z of
                None \<Rightarrow> sp2seg(z \<mapsto> (replicate (max_sp + 1) 0)[sp := seg])
              | Some a \<Rightarrow> sp2seg(z \<mapsto> a[sp := seg])))
          sp2seg_list Map.empty"

text \<open>\<open>seg2bod[sp2seg[j][m]]\<close> for one plane \<open>m\<close>: a missing key and an index out of
  range raise.\<close>

definition decode_plane ::
    "nat list \<Rightarrow> (nat \<rightharpoonup> nat list) \<Rightarrow> nat \<Rightarrow> plane \<Rightarrow> error + plane" where
  "decode_plane seg2bod sp2seg j m =
     (case sp2seg j of
        None \<Rightarrow> Inl KeyError
      | Some a \<Rightarrow>
          if \<not> list_all (\<lambda>s. s < length a) (concat m) then Inl IndexError
          else if \<not> list_all (\<lambda>s. a ! s < length seg2bod) (concat m) then Inl IndexError
          else Inr (map (map (\<lambda>s. seg2bod ! (a ! s))) m))"

fun collect :: "(error + 'a) list \<Rightarrow> error + 'a list" where
  "collect [] = Inr []"
| "collect (x # xs) =
     (case x of
        Inl e \<Rightarrow> Inl e
      | Inr y \<Rightarrow> (case collect xs of Inl e \<Rightarrow> Inl e | Inr ys \<Rightarrow> Inr (y # ys)))"

text \<open>
  The repair of the corner: when the voxel (0, 0) of every plane is 0 and the volume has
  as many zeros as planes, the voxel (0, 1) of each plane is copied over its voxel (0, 0).
  Reading \<open>[:, 0, 0]\<close> or \<open>[:, 0, 1]\<close> raises IndexError when the planes are too small.
\<close>

definition corner :: "plane \<Rightarrow> nat" where
  "corner p = hd (hd p)"

definition count_zeros :: "volume \<Rightarrow> nat" where
  "count_zeros v = length (filter (\<lambda>x. x = 0) (concat (concat v)))"

definition repair_corners :: "volume \<Rightarrow> error + volume" where
  "repair_corners output_volume =
     (if list_ex no_corner output_volume then Inl IndexError
      else if list_all (\<lambda>p. corner p = 0) output_volume
              \<and> count_zeros output_volume = length output_volume
      then (if list_ex (\<lambda>p. length (hd p) < 2) output_volume then Inl IndexError
            else Inr (map (\<lambda>p. set_corner (hd p ! 1) p) output_volume))
      else Inr output_volume)"

definition raveler_to_labeled_volume ::
    "'f helpers \<Rightarrow> volume \<Rightarrow> (nat \<times> nat \<times> nat) list \<Rightarrow> (nat \<times> nat) list \<Rightarrow>
       bool \<Rightarrow> volume option \<Rightarrow> error + volume" where
  "raveler_to_labeled_volume h spmap sp2seg_list seg2bod_list use_watershed probability_map =
     (case amax (map (\<lambda>(z, sp, seg). sp) sp2seg_list) of
        Inl e \<Rightarrow> Inl e
      | Inr max_sp \<Rightarrow>
     (case amin (map (\<lambda>(z, sp, seg). z) sp2seg_list) of
        Inl e \<Rightarrow> Inl e
      | Inr start_plane \<Rightarrow>
     (case amax (map fst seg2bod_list) of
        Inl e \<Rightarrow> Inl e
      | Inr max_seg \<Rightarrow>
     (let sp2seg = sp2seg_of max_sp sp2seg_list;
          seg2bod = scatter (replicate (max_seg + 1) 0) seg2bod_list
      in case collect (map (\<lambda>(i, m). decode_plane seg2bod sp2seg (start_plane + i) m)
                         (enumerate 0 spmap)) of
           Inl e \<Rightarrow> Inl e
         | Inr initial_output_volume \<Rightarrow>
             (let probs = (case probability_map of
                             None \<Rightarrow> map (map (map (\<lambda>x. 1))) spmap
                           | Some pm \<Rightarrow> pm);
                  output_volume = (if use_watershed then watershed h probs initial_output_volume
                                   else initial_output_volume)
              in repair_corners output_volume)))))"

section \<open>The helpers as the specification describes them\<close>

text \<open>
  Modelled from the spec: evaluate.relabel\_from\_one is not in imio.py. Section 4.1:
  without connected components the relabeler compacts the distinct nonzero values of the
  plane to a contiguous range starting at 1, in the order of their first appearance, and
  records the count of distinct nonzero ids of the plane. The third component returned
  here lists the original nonzero ids in their new order, so that its length is that count;
  the spec says nothing of the forward map, which is the unit value.
\<close>

definition first_appearances :: "nat list \<Rightarrow> nat list" where
  "first_appearances xs = rev (remdups (rev (filter (\<lambda>x. x \<noteq> 0) xs)))"

fun index_of :: "nat list \<Rightarrow> nat \<Rightarrow> nat" where
  "index_of [] v = 0"
| "index_of (x # xs) v = (if x = v then 0 else Suc (index_of xs v))"

definition relabel_from_one_spec :: "plane \<Rightarrow> plane \<times> unit \<times> nat list" where
  "relabel_from_one_spec a =
     (let ids = first_appearances (concat a)
      in (map (map (\<lambda>v. if v = 0 then 0 else Suc (index_of ids v))) a, (), ids))"

text \<open>
  Modelled from the spec: connected components of a plane. Two voxels are neighbours when
  they share an edge within the plane; \<open>conn\<close> says whether two neighbouring ids belong
  together. The component of a voxel is grown from it, once per voxel of the plane.
\<close>

type_synonym pos = "nat \<times> nat"

definition positions :: "plane \<Rightarrow> pos list" where
  "positions a = concat (map (\<lambda>(r, row). map (\<lambda>c. (r, c)) [0..<length row]) (enumerate 0 a))"

definition at :: "plane \<Rightarrow> pos \<Rightarrow> nat" where
  "at a = (\<lambda>(r, c). a ! r ! c)"

definition adjacent :: "pos \<Rightarrow> pos \<Rightarrow> bool" where
  "adjacent = (\<lambda>(r, c) (r', c').
     (r = r' \<and> (c = Suc c' \<or> c' = Suc c)) \<or> (c = c' \<and> (r = Suc r' \<or> r' = Suc r)))"

definition grow :: "(nat \<Rightarrow> nat \<Rightarrow> bool) \<Rightarrow> plane \<Rightarrow> pos list \<Rightarrow> pos list" where
  "grow conn a found =
     found @ filter (\<lambda>q. q \<notin> set found
                          \<and> list_ex (\<lambda>s. adjacent s q \<and> conn (at a s) (at a q)) found)
               (positions a)"

definition component :: "(nat \<Rightarrow> nat \<Rightarrow> bool) \<Rightarrow> plane \<Rightarrow> pos \<Rightarrow> pos list" where
  "component conn a s = ((grow conn a) ^^ (length (positions a))) [s]"

text \<open>
  Modelled from the spec: morpho.remove\_small\_connected\_components is not in imio.py.
  Section 4.1: if \<open>min_size > 0\<close>, any connected component smaller than \<open>min_size\<close> is
  zeroed; a component is a maximal connected set of voxels of one nonzero id.
\<close>

definition remove_small_connected_components_spec :: "plane \<Rightarrow> nat \<Rightarrow> plane" where
  "remove_small_connected_components_spec a min_size =
     (if min_size = 0 then a
      else map (\<lambda>(r, row).
                 map (\<lambda>(c, v).
                       if v \<noteq> 0 \<and> length (component (\<lambda>x y. x = y) a (r, c)) < min_size
                       then 0 else v)
                     (enumerate 0 row))
               (enumerate 0 a))"

text \<open>
  Modelled from the spec: connected-component labeling of a plane (section 4.1,
  \<open>connected=True\<close>), the library function \<open>label\<close>: every maximal connected set of
  nonzero voxels gets one id, 1, 2, ... in the order in which a scan of the plane meets
  the components, and the number of components is returned with the labeled plane.
\<close>

definition paint :: "plane \<Rightarrow> pos list \<Rightarrow> nat \<Rightarrow> plane" where
  "paint out ps v = fold (\<lambda>(r, c) out'. out'[r := (out' ! r)[c := v]]) ps out"

definition label_step :: "plane \<Rightarrow> pos \<Rightarrow> plane \<times> nat \<Rightarrow> plane \<times> nat" where
  "label_step a q = (\<lambda>(out, n).
     if at a q \<noteq> 0 \<and> at out q = 0
     then (paint out (component (\<lambda>x y. x \<noteq> 0 \<and> y \<noteq> 0) a q) (Suc n), Suc n)
     else (out, n))"

definition label_spec :: "plane \<Rightarrow> plane \<times> nat" where
  "label_spec a = fold (label_step a) (positions a) (map (map (\<lambda>v. 0)) a, 0)"

text \<open>
  Modelled from the spec: morpho.watershed is not in imio.py. Section 4.5 says only that
  the refinement is a seeded region-growing pass that returns a volume of the same shape;
  nothing here depends on more, and the seeds are returned as they are.
\<close>

definition watershed_spec :: "volume \<Rightarrow> volume \<Rightarrow> volume" where
  "watershed_spec probs seeds = seeds"

definition spec_helpers :: "unit helpers" where
  "spec_helpers =
     \<lparr> remove_small_connected_components = remove_small_connected_components_spec,
       relabel_from_one = relabel_from_one_spec,
       label = label_spec,
       watershed = watershed_spec \<rparr>"

section \<open>Names for what one plane goes through\<close>

text \<open>
  The plane that \<open>label_fct\<close> returns for a plane after \<open>remove_small\<close>, and the
  number of ids it returns with it.
\<close>

definition relabeled_of :: "'f helpers \<Rightarrow> nat \<Rightarrow> bool \<Rightarrow> plane \<Rightarrow> plane" where
  "relabeled_of h min_size do_conn_comp a =
     fst (label_fct h do_conn_comp (remove_small h min_size a))"

definition nids_of :: "'f helpers \<Rightarrow> nat \<Rightarrow> bool \<Rightarrow> plane \<Rightarrow> nat" where
  "nids_of h min_size do_conn_comp a =
     snd (label_fct h do_conn_comp (remove_small h min_size a))"

section \<open>The table from fine ids to intermediate ids in the words of the specification\<close>

text \<open>
  Section 4.3, the table from fine ids to intermediate ids, for the plane number \<open>i\<close>: the
  mid-id plane is zeroed where the fine-id plane is 0; the table is the set of distinct
  triples (plane index, fine id, mid id) over the voxels where the fine id is nonzero or
  the masked mid id is zero.
\<close>

definition masked_mid :: "plane \<Rightarrow> plane \<Rightarrow> nat list" where
  "masked_mid fine mid =
     map (\<lambda>(f, m). if f = 0 then 0 else m) (zip (concat fine) (concat mid))"

definition fine_to_mid_plane_spec :: "nat \<Rightarrow> plane \<Rightarrow> plane \<Rightarrow> (nat \<times> nat \<times> nat) set" where
  "fine_to_mid_plane_spec i fine mid =
     (\<lambda>(f, m). (i, f, m)) `
       {p \<in> set (zip (concat fine) (masked_mid fine mid)). fst p \<noteq> 0 \<or> snd p = 0}"

section \<open>Notions for the round trip\<close>

text \<open>
  The voxels of a plane in raster order: voxel 0 is the voxel at row 0, column 0. The shape
  of a volume is the list of the row lengths of each of its planes.
\<close>

definition voxels :: "plane \<Rightarrow> nat list" where
  "voxels p = concat p"

definition shape :: "volume \<Rightarrow> nat list list" where
  "shape v = map (map length) v"

text \<open>
  What the two helpers of the relabeler must do for one plane when \<open>min_size = 0\<close> and no
  connected components are asked for (spec section 4.1): nothing is removed, and
  \<open>relabel_from_one\<close> renames the ids of the plane by a map that keeps 0, sends
  different ids to different ids, and sends no id above the number of ids it reports.
\<close>

definition relabeling :: "'f helpers \<Rightarrow> bool" where
  "relabeling h =
     (\<forall>a. remove_small_connected_components h a 0 = a \<and>
          (\<exists>f. fst (relabel_from_one h a) = map (map f) a \<and> f 0 = 0
               \<and> inj_on f (insert 0 (set (voxels a)))
               \<and> (\<forall>x\<in>set (voxels a). f x \<le> length (snd (snd (relabel_from_one h a))))))"

text \<open>
  A plane relabeled by \<open>F\<close> except possibly at its corner, which may have been set to 0.
\<close>

definition upto_corner :: "(nat \<Rightarrow> nat) \<Rightarrow> nat list \<Rightarrow> nat list \<Rightarrow> bool" where
  "upto_corner F xs us =
     (length us = length xs \<and> (\<forall>k<length xs. us ! k = F (xs ! k) \<or> (k = 0 \<and> us ! k = 0)))"

text \<open>
  The value that \<open>scatter\<close> of a table into an array of zeros leaves at the index \<open>k\<close>.
\<close>

definition last_value :: "(nat \<times> nat) list \<Rightarrow> nat \<Rightarrow> nat" where
  "last_value tbl k = (case map_of (rev tbl) k of None \<Rightarrow> 0 | Some v \<Rightarrow> v)"

text \<open>
  The precondition of the round trip on the caller's volumes: within each plane the
  superpixel id of a voxel determines its body id (no superpixel lies in two bodies), and a
  voxel without a superpixel (id 0) is background in the body volume. A volume is roomy
  when it has a plane and each plane has a first row of at least two voxels.
\<close>

definition superpixels_fit :: "volume \<Rightarrow> volume \<Rightarrow> bool" where
  "superpixels_fit sps bodies =
     list_all (\<lambda>(s, b). single_valued (set (zip (voxels s) (voxels b)))
                         \<and> list_all (\<lambda>(x, y). x = 0 \<longrightarrow> y = 0) (zip (voxels s) (voxels b)))
       (zip sps bodies)"

definition roomy :: "volume \<Rightarrow> bool" where
  "roomy v = (v \<noteq> [] \<and> list_all (\<lambda>p. p \<noteq> [] \<and> 2 \<le> length (hd p)) v)"

section \<open>Auxiliary facts\<close>

lemma set_ravel: "set (ravel x) = set_ndarray x"
  by (induction x) auto

lemma length_scatter: "length (scatter a pairs) = length a"
  unfolding scatter_def by (induction pairs arbitrary: a) (auto split: prod.splits)

lemma scatter_nth:
  "k < length a \<Longrightarrow>
   scatter a pairs ! k = (case map_of (rev pairs) k of None \<Rightarrow> a ! k | Some v \<Rightarrow> v)"
proof (induction pairs arbitrary: a)
  case Nil
  then show ?case by (simp add: scatter_def)
next
  case (Cons p pairs)
  obtain k' v' where p: "p = (k', v')" by (cases p)
  have step: "scatter a (p # pairs) = scatter (a[k' := v']) pairs"
    by (simp add: scatter_def p)
  have "scatter (a[k' := v']) pairs ! k =
        (case map_of (rev pairs) k of None \<Rightarrow> a[k' := v'] ! k | Some v \<Rightarrow> v)"
    using Cons.IH [of "a[k' := v']"] Cons.prems by simp
  then show ?case
    using Cons.prems unfolding step
    by (auto simp: p nth_list_update split: option.splits)
qed

lemma amax_Max: "xs \<noteq> [] \<Longrightarrow> amax xs = Inr (Max (set xs))"
proof (cases xs)
  case Nil
  assume "xs \<noteq> []"
  with Nil show ?thesis by simp
next
  case (Cons a list)
  show ?thesis unfolding Cons using Max.set_eq_fold [of a list] by simp
qed

lemma length_cumsum_from: "length (cumsum_from acc xs) = length xs"
  by (induction xs arbitrary: acc) auto

lemma cumsum_from_nth:
  "i < length xs \<Longrightarrow> cumsum_from acc xs ! i = acc + sum_list (take (Suc i) xs)"
proof (induction xs arbitrary: acc i)
  case Nil
  then show ?case by simp
next
  case (Cons x xs)
  show ?case
  proof (cases i)
    case 0
    then show ?thesis by simp
  next
    case (Suc j)
    with Cons.prems have "j < length xs" by simp
    from Cons.IH [OF this, of "acc + x"] show ?thesis
      by (simp add: Suc)
  qed
qed

lemma length_start_ids_of:
  "nids \<noteq> [] \<Longrightarrow> length (start_ids_of gu nids) = length nids"
  by (simp add: start_ids_of_def cumsum_def length_cumsum_from)

lemma start_ids_of_nth:
  assumes "i < length nids"
  shows "start_ids_of gu nids ! i = (if gu then sum_list (take i nids) else 0)"
proof (cases gu)
  case False
  then show ?thesis using assms by (simp add: start_ids_of_def)
next
  case True
  show ?thesis
  proof (cases i)
    case 0
    then show ?thesis using True by (simp add: start_ids_of_def)
  next
    case (Suc j)
    have j: "j < length (cumsum nids) - 1"
      using assms Suc by (simp add: cumsum_def length_cumsum_from)
    then have "butlast (cumsum nids) ! j = cumsum nids ! j"
      by (simp add: nth_butlast)
    also have "\<dots> = sum_list (take (Suc j) nids)"
      using assms Suc by (simp add: cumsum_def cumsum_from_nth)
    finally show ?thesis
      using True Suc by (simp add: start_ids_of_def)
  qed
qed

lemma serial_section_map_Inr:
  assumes "serial_section_map h nd_map min_size dcc gu = Inr out"
  shows "nd_map \<noteq> []" and "length out = length nd_map"
    and "i < length nd_map \<Longrightarrow>
         out ! i = add_scalar (relabeled_of h min_size dcc (nd_map ! i))
                     (if gu then sum_list (map (nids_of h min_size dcc) (take i nd_map)) else 0)"
proof -
  define labeled where
    "labeled = map (label_fct h dcc) (map (remove_small h min_size) nd_map)"
  define nids where "nids = map snd labeled"
  show ne: "nd_map \<noteq> []"
    using assms by (auto simp: serial_section_map_def Let_def split: if_splits)
  then have lne: "labeled \<noteq> []" by (simp add: labeled_def)
  have out: "out = map (\<lambda>(p, s). add_scalar p s) (zip (map fst labeled) (start_ids_of gu nids))"
    using assms ne unfolding serial_section_map_def Let_def labeled_def nids_def
    by simp
  have ln: "length nids = length nd_map" by (simp add: nids_def labeled_def)
  have ls: "length (start_ids_of gu nids) = length nd_map"
  proof -
    have "nids \<noteq> []" using ne ln by auto
    from length_start_ids_of [OF this, of gu] show ?thesis by (simp add: ln)
  qed
  show "length out = length nd_map"
    by (simp add: out ls labeled_def)
  assume i: "i < length nd_map"
  have nids_eq: "nids = map (nids_of h min_size dcc) nd_map"
    by (simp add: nids_def labeled_def nids_of_def)
  have "out ! i = add_scalar (fst (labeled ! i)) (start_ids_of gu nids ! i)"
    using i ls by (simp add: out labeled_def)
  also have "fst (labeled ! i) = relabeled_of h min_size dcc (nd_map ! i)"
    using i by (simp add: labeled_def relabeled_of_def)
  also have "start_ids_of gu nids ! i =
             (if gu then sum_list (map (nids_of h min_size dcc) (take i nd_map)) else 0)"
    using start_ids_of_nth [of i nids gu] i ln by (simp add: nids_eq take_map)
  finally show "out ! i = add_scalar (relabeled_of h min_size dcc (nd_map ! i))
                     (if gu then sum_list (map (nids_of h min_size dcc) (take i nd_map)) else 0)" .
qed

lemma set_corner_corner:
  "\<not> no_corner p \<Longrightarrow> corner (set_corner x p) = x \<and> x \<in> set (concat (set_corner x p))"
  by (cases p) (auto simp: set_corner_def no_corner_def corner_def)

lemma raveler_serial_section_map_Inr:
  assumes "raveler_serial_section_map h nd_map min_size dcc gu = Inr out"
  shows "\<exists>v. serial_section_map h nd_map min_size dcc gu = Inr v \<and>
             (if any_zero v then out = v
              else \<not> list_ex no_corner v \<and> out = map (set_corner 0) v)"
  using assms
  by (auto simp: raveler_serial_section_map_def zero_corners_def split: sum.splits if_splits)

lemma unique_sorted_list_of_set: "unique xs = sorted_list_of_set (set xs)"
  by (simp add: unique_def sorted_list_of_set_sort_remdups)

lemma segs_to_raveler_Inr:
  assumes "segs_to_raveler h sps bodies min_size dcc so = Inr (sps_out, sp_to_segment, segment_to_body)"
  shows "\<exists>segment_map.
           raveler_serial_section_map h bodies min_size dcc True = Inr segment_map
         \<and> (case so of None \<Rightarrow> raveler_serial_section_map h sps min_size dcc False
                       | Some given \<Rightarrow> Inr given) = Inr sps_out
         \<and> sp_to_segment_of sps_out segment_map bodies = Inr sp_to_segment
         \<and> segment_to_body = segment_to_body_of segment_map bodies"
  using assms unfolding segs_to_raveler_def
  by (auto split: sum.splits)

lemma zip_map_zip:
  "zip xs (map f (zip xs ys)) = map (\<lambda>(x, y). (x, f (x, y))) (zip xs ys)"
proof (induction xs arbitrary: ys)
  case Nil
  then show ?case by simp
next
  case (Cons x xs)
  then show ?case by (cases ys) simp_all
qed

lemma sp_to_segment_plane_spec:
  "sp_to_segment_plane i fine mid = sorted_list_of_set (fine_to_mid_plane_spec i fine mid)"
proof -
  have m: "zip (concat fine) (masked_mid fine mid)
           = map mask_segment (zip (concat fine) (concat mid))"
    unfolding masked_mid_def zip_map_zip
    by (rule map_cong) (auto simp: mask_segment_def)
  have v: "valid = (\<lambda>p. fst p \<noteq> 0 \<or> snd p = 0)"
    by (auto simp: valid_def fun_eq_iff)
  have "set (map (\<lambda>(s, g). (i, s, g)) (filter valid (map mask_segment (zip (concat fine) (concat mid)))))
        = fine_to_mid_plane_spec i fine mid"
    unfolding fine_to_mid_plane_spec_def m v
    by simp
  then show ?thesis
    by (simp add: sp_to_segment_plane_def Let_def unique_sorted_list_of_set)
qed

lemma map_enumerate_nth:
  "map (\<lambda>(i, x). f i x) (enumerate 0 xs) = map (\<lambda>i. f i (xs ! i)) [0..<length xs]"
  by (rule nth_equalityI) (simp_all add: nth_enumerate_eq)

lemma length_raveler_serial_section_map:
  assumes "raveler_serial_section_map h nd_map min_size dcc gu = Inr out"
  shows "length out = length nd_map"
proof -
  from raveler_serial_section_map_Inr [OF assms] obtain v where
    v: "serial_section_map h nd_map min_size dcc gu = Inr v"
    and c: "if any_zero v then out = v else \<not> list_ex no_corner v \<and> out = map (set_corner 0) v"
    by blast
  from c have "length out = length v" by (auto split: if_splits)
  with serial_section_map_Inr(2) [OF v] show ?thesis by simp
qed

lemma amax_ge: "amax xs = Inr m \<Longrightarrow> x \<in> set xs \<Longrightarrow> x \<le> m"
  using amax_Max [of xs] by (cases "xs = []") auto

lemma amax_Inr: "xs \<noteq> [] \<Longrightarrow> \<exists>m. amax xs = Inr m"
  by (cases xs) auto

lemma amin_Min: "xs \<noteq> [] \<Longrightarrow> amin xs = Inr (Min (set xs))"
proof (cases xs)
  case Nil
  assume "xs \<noteq> []"
  with Nil show ?thesis by simp
next
  case (Cons a list)
  show ?thesis unfolding Cons using Min.set_eq_fold [of a list] by simp
qed

lemma amin_zero: "(0::nat) \<in> set xs \<Longrightarrow> amin xs = Inr 0"
proof -
  assume z: "0 \<in> set xs"
  then have ne: "xs \<noteq> []" by auto
  have "Min (set xs) \<le> 0" using z by (intro Min_le) auto
  then show ?thesis using amin_Min [OF ne] by simp
qed

text \<open>In a sorted table of pairs, the last row of a key holds the largest value of the key.\<close>

lemma map_of_rev_sorted:
  fixes xs :: "(nat \<times> nat) list"
  assumes "sorted xs" and "map_of (rev xs) k = Some v"
  shows "(k, v) \<in> set xs \<and> (\<forall>v'. (k, v') \<in> set xs \<longrightarrow> v' \<le> v)"
  using assms
proof (induction xs)
  case Nil
  then show ?case by simp
next
  case (Cons x xs)
  from Cons.prems(1) have sx: "sorted xs" and le: "\<forall>y\<in>set xs. x \<le> y" by auto
  show ?case
  proof (cases "map_of (rev xs) k")
    case None
    then have nk: "k \<notin> fst ` set xs"
      by (simp add: map_of_eq_None_iff)
    from Cons.prems(2) None have "x = (k, v)"
      by (cases x) (auto simp: map_add_def split: if_splits)
    with nk show ?thesis by force
  next
    case (Some w)
    with Cons.prems(2) have wv: "w = v" by (simp add: map_add_def)
    from Cons.IH [OF sx] Some wv
    have ih: "(k, v) \<in> set xs" "\<forall>v'. (k, v') \<in> set xs \<longrightarrow> v' \<le> v" by auto
    have "v' \<le> v" if "x = (k, v')" for v'
    proof -
      from le ih(1) have "x \<le> (k, v)" by blast
      with that show ?thesis by simp
    qed
    with ih show ?thesis by auto
  qed
qed

lemma map_of_rev_None: "map_of (rev xs) k = None \<longleftrightarrow> k \<notin> fst ` set xs"
  by (simp add: map_of_eq_None_iff)

lemma sorted_unique: "sorted (unique xs)" and distinct_unique: "distinct (unique xs)"
  and set_unique: "set (unique xs) = set xs"
  by (simp_all add: unique_def)

lemma unique_map_Pair: "unique (map (Pair i) xs) = map (Pair i) (unique xs)"
proof (rule sorted_distinct_set_unique)
  show "sorted (unique (map (Pair i) xs))" by (rule sorted_unique)
  show "distinct (unique (map (Pair i) xs))" by (rule distinct_unique)
  have "sorted_wrt (\<lambda>x y. (i, x) \<le> (i, y)) (unique xs)"
    using sorted_unique [of xs] by simp
  then show "sorted (map (Pair i) (unique xs))"
    by (simp add: sorted_map)
  show "distinct (map (Pair i) (unique xs))"
    using distinct_unique [of xs] by (simp add: distinct_map inj_on_def)
  show "set (unique (map (Pair i) xs)) = set (map (Pair i) (unique xs))"
    by (simp add: set_unique)
qed

lemma scatter_replicate_nth:
  "k \<le> n \<Longrightarrow> scatter (replicate (n + 1) 0) pairs ! k
     = (case map_of (rev pairs) k of None \<Rightarrow> 0 | Some v \<Rightarrow> v)"
proof -
  assume "k \<le> n"
  then have lt: "k < n + 1" by simp
  have z: "replicate (n + 1) 0 ! k = (0::nat)" using lt by (rule nth_replicate)
  have "k < length (replicate (n + 1) (0::nat))" using lt by simp
  from scatter_nth [OF this, of pairs] show ?thesis unfolding z .
qed

lemma sp2seg_of_fold:
  "fold (\<lambda>(z, sp, seg) sp2seg.
             (case sp2seg z of
                None \<Rightarrow> sp2seg(z \<mapsto> (replicate (n + 1) 0)[sp := seg])
              | Some a \<Rightarrow> sp2seg(z \<mapsto> a[sp := seg]))) tbl d z
   = (case d z of
        None \<Rightarrow> (if z \<in> fst ` set tbl
                  then Some (scatter (replicate (n + 1) 0) (map snd (filter (\<lambda>t. fst t = z) tbl)))
                  else None)
      | Some a \<Rightarrow> Some (scatter a (map snd (filter (\<lambda>t. fst t = z) tbl))))"
proof (induction tbl arbitrary: d)
  case Nil
  then show ?case by (simp add: scatter_def split: option.splits)
next
  case (Cons t tbl)
  obtain z' sp seg where t: "t = (z', sp, seg)" by (cases t)
  show ?case
    unfolding t
    by (simp add: Cons.IH scatter_def split: option.splits) 
qed

lemma sp2seg_of_lookup:
  "sp2seg_of n tbl z =
     (if z \<in> fst ` set tbl
      then Some (scatter (replicate (n + 1) 0) (map snd (filter (\<lambda>t. fst t = z) tbl)))
      else None)"
  unfolding sp2seg_of_def by (simp add: sp2seg_of_fold)

lemma filter_concat_planes:
  "i < M \<Longrightarrow>
   filter (\<lambda>t. fst t = i) (concat (map (\<lambda>j. map (Pair j) (X j)) [0..<M])) = map (Pair i) (X i)"
proof (induction M)
  case 0
  then show ?case by simp
next
  case (Suc M)
  have none: "filter (\<lambda>t. fst t = i) (map (Pair j) ys) = []" if "j \<noteq> i" for j and ys :: "'a list"
    using that by (induction ys) auto
  have all: "filter (\<lambda>t. fst t = i) (map (Pair i) ys) = map (Pair i) ys" for ys :: "'a list"
    by (induction ys) auto
  show ?case
  proof (cases "i = M")
    case True
    have "filter (\<lambda>t. fst t = i) (concat (map (\<lambda>j. map (Pair j) (X j)) [0..<M])) = []"
      unfolding True by (induction M) (auto simp: filter_concat none)
    then show ?thesis using True by (simp add: all)
  next
    case False
    with Suc.prems have "i < M" by simp
    from Suc.IH [OF this] False show ?thesis by (simp add: none)
  qed
qed

lemma collect_map:
  "(\<And>x. x \<in> set xs \<Longrightarrow> f x = Inr (g x)) \<Longrightarrow> collect (map f xs) = Inr (map g xs)"
  by (induction xs) auto

lemma zip_concat:
  "map length a = map length b \<Longrightarrow>
   zip (concat a) (concat b) = concat (map (\<lambda>(x, y). zip x y) (zip a b))"
proof (induction a arbitrary: b)
  case Nil
  then show ?case by simp
next
  case (Cons x a)
  then obtain y b' where b: "b = y # b'" by (cases b) auto
  with Cons.prems have "length x = length y" "map length a = map length b'" by auto
  with Cons.IH [of b'] show ?case by (simp add: b)
qed

lemma sum_list_take_le:
  fixes ns :: "nat list"
  shows "i \<le> j \<Longrightarrow> sum_list (take i ns) \<le> sum_list (take j ns)"
proof -
  assume "i \<le> j"
  then have "take j ns = take i ns @ take (j - i) (drop i ns)"
    by (metis le_add_diff_inverse take_add)
  then show ?thesis by simp
qed

lemma offsets_disjoint:
  fixes ns :: "nat list"
  assumes "i < length ns" "j < length ns"
    and "0 < x" "x \<le> ns ! i" "0 < y" "y \<le> ns ! j"
    and "sum_list (take i ns) + x = sum_list (take j ns) + y"
  shows "i = j"
proof -
  have lt: False if "a < b" "b < length ns" "0 < xa" "xa \<le> ns ! a" "0 < xb"
    "sum_list (take a ns) + xa = sum_list (take b ns) + xb" for a b xa xb
  proof -
    have "sum_list (take (Suc a) ns) = sum_list (take a ns) + ns ! a"
      using that by (simp add: take_Suc_conv_app_nth)
    moreover have "sum_list (take (Suc a) ns) \<le> sum_list (take b ns)"
      using that by (intro sum_list_take_le) simp
    ultimately show False using that by simp
  qed
  show ?thesis
  proof (rule ccontr)
    assume "i \<noteq> j"
    then consider "i < j" | "j < i" by linarith
    then show False
    proof cases
      case 1
      with lt [of i j x y] assms show False by simp
    next
      case 2
      with lt [of j i y x] assms show False by simp
    qed
  qed
qed

lemma voxels_map: "voxels (map (map f) p) = map f (voxels p)"
  by (simp add: voxels_def map_concat)

lemma voxels_add_scalar: "voxels (add_scalar p s) = map (\<lambda>v. v + s) (voxels p)"
  by (simp add: add_scalar_def voxels_map)

lemma voxels_set_corner:
  "\<not> no_corner p \<Longrightarrow> voxels (set_corner x p) = (voxels p)[0 := x]"
  by (cases p; cases "hd p") (auto simp: no_corner_def set_corner_def voxels_def)

lemma shape_set_corner:
  "\<not> no_corner p \<Longrightarrow> map length (set_corner x p) = map length p"
  by (cases p; cases "hd p") (auto simp: no_corner_def set_corner_def)

lemma no_corner_shape: "map length p = map length q \<Longrightarrow> no_corner p = no_corner q"
  by (cases p; cases q) (auto simp: no_corner_def)

lemma voxels_length_shape:
  "map length p = map length q \<Longrightarrow> length (voxels p) = length (voxels q)"
  by (simp add: voxels_def length_concat)

lemma voxels_nonempty: "\<not> no_corner p \<Longrightarrow> voxels p \<noteq> []"
  by (cases p) (auto simp: no_corner_def voxels_def)

lemma any_zero_voxels: "any_zero v \<longleftrightarrow> (\<exists>p\<in>set v. 0 \<in> set (voxels p))"
  by (auto simp: any_zero_def voxels_def)

lemma upto_corner_map: "upto_corner F xs (map F xs)"
  by (simp add: upto_corner_def)

lemma upto_corner_update: "upto_corner F xs ((map F xs)[0 := 0])"
proof -
  have "(map F xs)[0 := 0] ! k = F (xs ! k) \<or> (k = 0 \<and> (map F xs)[0 := 0] ! k = 0)"
    if "k < length xs" for k
    using that by (cases k) simp_all
  then show ?thesis by (simp add: upto_corner_def)
qed

lemma relabeling_choice:
  assumes "relabeling h"
  shows "\<exists>rl. \<forall>a. relabeled_of h 0 False a = map (map (rl a)) a \<and> rl a 0 = 0
              \<and> inj_on (rl a) (insert 0 (set (voxels a)))
              \<and> (\<forall>x\<in>set (voxels a). rl a x \<le> nids_of h 0 False a)"
proof -
  have rs: "remove_small h 0 a = a" for a
    using assms by (simp add: relabeling_def remove_small_def)
  have r: "relabeled_of h 0 False a = fst (relabel_from_one h a)" for a
    by (simp add: relabeled_of_def label_fct_def rs split: prod.splits)
  have n: "nids_of h 0 False a = length (snd (snd (relabel_from_one h a)))" for a
    by (simp add: nids_of_def label_fct_def rs split: prod.splits)
  have "\<forall>a. \<exists>f. relabeled_of h 0 False a = map (map f) a \<and> f 0 = 0
              \<and> inj_on f (insert 0 (set (voxels a)))
              \<and> (\<forall>x\<in>set (voxels a). f x \<le> nids_of h 0 False a)"
    using assms unfolding relabeling_def r n by blast
  then show ?thesis by (rule choice)
qed

lemma serial_section_map_returns:
  "v \<noteq> [] \<Longrightarrow> \<exists>w. serial_section_map h v min_size dcc gu = Inr w"
  by (simp add: serial_section_map_def Let_def)

lemma raveler_serial_section_map_upto_corner:
  assumes R: "\<And>a. relabeled_of h 0 False a = map (map (rl a)) a"
    and ne: "v \<noteq> []"
    and nc: "list_all (\<lambda>p. \<not> no_corner p) v"
  shows "\<exists>out. raveler_serial_section_map h v 0 False gu = Inr out \<and> length out = length v \<and>
           (\<forall>i<length v. map length (out ! i) = map length (v ! i) \<and>
              upto_corner (\<lambda>x. rl (v ! i) x
                                + (if gu then sum_list (take i (map (nids_of h 0 False) v)) else 0))
                (voxels (v ! i)) (voxels (out ! i)))"
proof -
  define off where "off i = (if gu then sum_list (map (nids_of h 0 False) (take i v)) else 0)" for i
  from serial_section_map_returns [OF ne] obtain w where
    w: "serial_section_map h v 0 False gu = Inr w" by blast
  have lw: "length w = length v" by (rule serial_section_map_Inr(2) [OF w])
  have wi: "w ! i = add_scalar (map (map (rl (v ! i))) (v ! i)) (off i)" if "i < length v" for i
    using serial_section_map_Inr(3) [OF w that] by (simp add: R off_def)
  have shw: "map length (w ! i) = map length (v ! i)" if "i < length v" for i
    by (simp add: wi [OF that] add_scalar_def)
  have vw: "voxels (w ! i) = map (\<lambda>x. rl (v ! i) x + off i) (voxels (v ! i))"
    if "i < length v" for i
    by (simp add: wi [OF that] voxels_add_scalar voxels_map)
  have ncw: "\<not> no_corner (w ! i)" if "i < length v" for i
    using nc that no_corner_shape [OF shw [OF that]] by (simp add: list_all_length)
  have nex: "\<not> list_ex no_corner w"
    using ncw lw by (auto simp: list_ex_length)
  have off_eq: "off i = (if gu then sum_list (take i (map (nids_of h 0 False) v)) else 0)" for i
    by (simp add: off_def take_map)
  show ?thesis
  proof (cases "any_zero w")
    case True
    then have "raveler_serial_section_map h v 0 False gu = Inr w"
      by (simp add: raveler_serial_section_map_def w)
    moreover have "upto_corner (\<lambda>x. rl (v ! i) x + off i) (voxels (v ! i)) (voxels (w ! i))"
      if "i < length v" for i
      unfolding vw [OF that] by (rule upto_corner_map)
    ultimately show ?thesis using lw shw unfolding off_eq by blast
  next
    case False
    then have out: "raveler_serial_section_map h v 0 False gu = Inr (map (set_corner 0) w)"
      using nex by (simp add: raveler_serial_section_map_def w zero_corners_def)
    have "map length (map (set_corner 0) w ! i) = map length (v ! i)
          \<and> upto_corner (\<lambda>x. rl (v ! i) x + off i) (voxels (v ! i))
               (voxels (map (set_corner 0) w ! i))"
      if i: "i < length v" for i
    proof -
      have e: "map (set_corner 0) w ! i = set_corner 0 (w ! i)" using i lw by simp
      have "voxels (set_corner 0 (w ! i)) = (voxels (w ! i))[0 := 0]"
        by (rule voxels_set_corner [OF ncw [OF i]])
      then have "upto_corner (\<lambda>x. rl (v ! i) x + off i) (voxels (v ! i))
                   (voxels (set_corner 0 (w ! i)))"
        unfolding vw [OF i] by (simp only: upto_corner_update)
      then show ?thesis
        unfolding e using shape_set_corner [OF ncw [OF i]] shw [OF i] by simp
    qed
    with out lw show ?thesis unfolding off_eq by auto
  qed
qed

lemma concat_concat_map: "concat (concat A) = concat (map concat A)"
  by (induction A) auto

lemma last_value_in: "k \<in> fst ` set tbl \<Longrightarrow> (k, last_value tbl k) \<in> set tbl"
proof -
  assume "k \<in> fst ` set tbl"
  then have "map_of (rev tbl) k \<noteq> None" by (simp add: map_of_eq_None_iff)
  then obtain v where v: "map_of (rev tbl) k = Some v" by auto
  from map_of_SomeD [OF v] show ?thesis by (simp add: last_value_def v)
qed

lemma last_value_sorted_max:
  assumes "sorted tbl" and "(k, v) \<in> set tbl" and "\<And>v'. (k, v') \<in> set tbl \<Longrightarrow> v' \<le> v"
  shows "last_value tbl k = v"
proof -
  have "k \<in> fst ` set tbl" using assms(2) by force
  then have "map_of (rev tbl) k \<noteq> None"
    by (simp add: map_of_eq_None_iff)
  then obtain w where w: "map_of (rev tbl) k = Some w" by auto
  from map_of_rev_sorted [OF assms(1) w] have "(k, w) \<in> set tbl" "v \<le> w"
    using assms(2) by auto
  with assms(3) have "w = v" by force
  then show ?thesis by (simp add: last_value_def w)
qed

lemma scatter_last_value:
  "k \<le> n \<Longrightarrow> scatter (replicate (n + 1) 0) pairs ! k = last_value pairs k"
  by (simp only: scatter_replicate_nth last_value_def)

lemma Pair_case: "(\<lambda>(s, g). (i, s, g)) = Pair i"
  by (auto simp: fun_eq_iff)

lemma filter_valid_mask: "filter valid (map mask_segment xs) = map mask_segment xs"
  by (induction xs) (auto simp: valid_def mask_segment_def split: if_splits)

lemma sp_to_segment_plane_flat:
  "sp_to_segment_plane i a b
     = map (Pair i) (unique (map mask_segment (zip (voxels a) (voxels b))))"
  by (simp add: sp_to_segment_plane_def Let_def Pair_case filter_valid_mask unique_map_Pair
        voxels_def)

lemma sp_to_segment_of_returns:
  assumes "length sps_out = M" "length segment_map = M" "length bodies = M" "0 < M"
    and "\<And>i. i < M \<Longrightarrow> same_shape (sps_out ! i) (segment_map ! i)"
  shows "sp_to_segment_of sps_out segment_map bodies =
           Inr (concat (map (\<lambda>i. map (Pair i)
                  (unique (map mask_segment
                     (zip (voxels (sps_out ! i)) (voxels (segment_map ! i))))))
                [0..<M]))"
proof -
  define planes where "planes = zip sps_out (zip segment_map bodies)"
  have lp: "length planes = M" using assms by (simp add: planes_def)
  have pi: "planes ! i = (sps_out ! i, segment_map ! i, bodies ! i)" if "i < M" for i
    using that assms by (simp add: planes_def)
  have ne: "planes \<noteq> []" using lp assms(4) by auto
  have ok: "\<not> list_ex (\<lambda>(sp_map_i, segment_map_i, body_map_i).
                            \<not> same_shape sp_map_i segment_map_i) planes"
    using assms(5) lp pi by (auto simp: list_ex_length)
  have "map (\<lambda>(i, sp_map_i, segment_map_i, body_map_i).
                        sp_to_segment_plane i sp_map_i segment_map_i) (enumerate 0 planes)
             = map (\<lambda>i. map (Pair i)
                  (unique (map mask_segment
                     (zip (voxels (sps_out ! i)) (voxels (segment_map ! i))))))
                [0..<M]"
    by (rule nth_equalityI) (simp_all add: lp nth_enumerate_eq pi sp_to_segment_plane_flat)
  then show ?thesis
    using ne ok unfolding sp_to_segment_of_def Let_def planes_def [symmetric] by simp
qed

lemma in_planes_table:
  "t \<in> set (concat (map (\<lambda>j. map (Pair j) (X j)) [0..<M]))
     \<longleftrightarrow> (\<exists>j<M. \<exists>x\<in>set (X j). t = (j, x))"
  by auto

lemma raveler_to_labeled_volume_planes:
  assumes t1: "t1 = concat (map (\<lambda>j. map (Pair j) (X j)) [0..<M])"
    and len: "length spmap = M" and M: "0 < M"
    and Xne: "\<And>i. i < M \<Longrightarrow> X i \<noteq> []"
    and t2ne: "t2 \<noteq> []"
    and range1: "\<And>i u. i < M \<Longrightarrow> u \<in> set (voxels (spmap ! i)) \<Longrightarrow> u \<in> fst ` set (X i)"
    and range2: "\<And>i u g. i < M \<Longrightarrow> (u, g) \<in> set (X i) \<Longrightarrow> g \<in> fst ` set t2"
  shows "raveler_to_labeled_volume h spmap t1 t2 False None =
           repair_corners
             (map (\<lambda>i. map (map (\<lambda>u. last_value t2 (last_value (X i) u))) (spmap ! i)) [0..<M])"
proof -
  have mem: "t \<in> set t1 \<longleftrightarrow> (\<exists>j<M. \<exists>x\<in>set (X j). t = (j, x))" for t
    unfolding t1 by (rule in_planes_table)
  from Xne [OF M] obtain x0 where x0: "x0 \<in> set (X 0)" by (cases "X 0") auto
  with M have in0: "(0, x0) \<in> set t1" by (auto simp: mem)
  then have t1ne: "t1 \<noteq> []" by auto
  from amax_Inr [of "map (\<lambda>(z, sp, seg). sp) t1"] t1ne obtain max_sp where
    amax_sp: "amax (map (\<lambda>(z, sp, seg). sp) t1) = Inr max_sp" by auto
  have "0 \<in> set (map (\<lambda>(z, sp, seg). z) t1)"
    using in0 by (force simp: image_iff)
  then have amin_z: "amin (map (\<lambda>(z, sp, seg). z) t1) = Inr 0"
    by (rule amin_zero)
  from amax_Inr [of "map fst t2"] t2ne obtain max_seg where
    amax_seg: "amax (map fst t2) = Inr max_seg" by auto
  define seg2bod where "seg2bod = scatter (replicate (max_seg + 1) 0) t2"
  define sp2seg where "sp2seg = sp2seg_of max_sp t1"
  have ls: "length seg2bod = max_seg + 1" by (simp add: seg2bod_def length_scatter)
  have sp_le: "u \<le> max_sp" if "i < M" "(u, g) \<in> set (X i)" for i u g
  proof -
    have "(i, u, g) \<in> set t1" using that by (auto simp: mem)
    then have "u \<in> set (map (\<lambda>(z, sp, seg). sp) t1)" by (force simp: image_iff)
    from amax_ge [OF amax_sp this] show ?thesis .
  qed
  have seg_le: "g \<le> max_seg" if "g \<in> fst ` set t2" for g
    using amax_ge [OF amax_seg, of g] that by simp
  have key: "sp2seg i = Some (scatter (replicate (max_sp + 1) 0) (X i))" if i: "i < M" for i
  proof -
    from Xne [OF i] obtain x where "x \<in> set (X i)" by (cases "X i") auto
    with i have "(i, x) \<in> set t1" by (auto simp: mem)
    then have "i \<in> fst ` set t1" by (force simp: image_iff)
    moreover have "map snd (filter (\<lambda>t. fst t = i) t1) = X i"
      unfolding t1 filter_concat_planes [OF i] by (simp add: comp_def)
    ultimately show ?thesis
      by (simp add: sp2seg_def sp2seg_of_lookup)
  qed
  have dec: "decode_plane seg2bod sp2seg (0 + i) (spmap ! i)
             = Inr (map (map (\<lambda>u. last_value t2 (last_value (X i) u))) (spmap ! i))"
    if i: "i < M" for i
  proof -
    define a where "a = scatter (replicate (max_sp + 1) 0) (X i)"
    have la: "length a = max_sp + 1" by (simp add: a_def length_scatter)
    have u_ok: "u \<le> max_sp \<and> a ! u = last_value (X i) u
                \<and> last_value (X i) u \<le> max_seg
                \<and> seg2bod ! (a ! u) = last_value t2 (last_value (X i) u)"
      if "u \<in> set (voxels (spmap ! i))" for u
    proof -
      from range1 [OF i that] have k: "u \<in> fst ` set (X i)" .
      from last_value_in [OF k] have inX: "(u, last_value (X i) u) \<in> set (X i)" .
      have ule: "u \<le> max_sp" by (rule sp_le [OF i inX])
      have au: "a ! u = last_value (X i) u"
        unfolding a_def by (rule scatter_last_value [OF ule])
      have gle: "last_value (X i) u \<le> max_seg"
        by (rule seg_le [OF range2 [OF i inX]])
      have "seg2bod ! (last_value (X i) u) = last_value t2 (last_value (X i) u)"
        unfolding seg2bod_def by (rule scatter_last_value [OF gle])
      with ule au gle show ?thesis by simp
    qed
    have c1: "list_all (\<lambda>s. s < length a) (concat (spmap ! i))"
      using u_ok by (auto simp: list_all_iff la voxels_def less_Suc_eq_le)
    have c2: "list_all (\<lambda>s. a ! s < length seg2bod) (concat (spmap ! i))"
      using u_ok by (auto simp: list_all_iff ls voxels_def less_Suc_eq_le)
    have c3: "map (map (\<lambda>s. seg2bod ! (a ! s))) (spmap ! i)
              = map (map (\<lambda>u. last_value t2 (last_value (X i) u))) (spmap ! i)"
      using u_ok by (auto simp: voxels_def)
    have key': "sp2seg (0 + i) = Some a"
      by (simp add: key [OF i] a_def)
    show ?thesis
      unfolding decode_plane_def key'
      using c1 c2 c3 by simp
  qed
  have "map (\<lambda>(i, m). decode_plane seg2bod sp2seg (0 + i) m) (enumerate 0 spmap)
        = map (\<lambda>i. decode_plane seg2bod sp2seg (0 + i) (spmap ! i)) [0..<M]"
    by (rule nth_equalityI) (simp_all add: len nth_enumerate_eq)
  also have "\<dots> = map (\<lambda>i. Inr (map (map (\<lambda>u. last_value t2 (last_value (X i) u))) (spmap ! i)))
                    [0..<M]"
    using dec by (intro map_cong) simp_all
  finally have "collect (map (\<lambda>(i, m). decode_plane seg2bod sp2seg (0 + i) m) (enumerate 0 spmap))
        = Inr (map (\<lambda>i. map (map (\<lambda>u. last_value t2 (last_value (X i) u))) (spmap ! i)) [0..<M])"
    using collect_map [of "[0..<M]"
        "\<lambda>i. Inr (map (map (\<lambda>u. last_value t2 (last_value (X i) u))) (spmap ! i))"
        "\<lambda>i. map (map (\<lambda>u. last_value t2 (last_value (X i) u))) (spmap ! i)"]
    by simp
  then show ?thesis
    unfolding raveler_to_labeled_volume_def amax_sp amin_z amax_seg
    by (simp add: Let_def seg2bod_def sp2seg_def)
qed

lemma voxels_corner: "\<not> no_corner p \<Longrightarrow> voxels p ! 0 = p ! 0 ! 0"
  by (cases p; cases "hd p") (auto simp: no_corner_def voxels_def)

lemma in_zip_same_length:
  "length xs = length ys \<Longrightarrow>
   (g, b) \<in> set (zip xs ys) \<longleftrightarrow> (\<exists>k<length xs. g = xs ! k \<and> b = ys ! k)"
  by (auto simp: set_zip)

lemma volume_pairs_iff:
  assumes "shape A = shape B"
  shows "(g, b) \<in> set (zip (concat (concat A)) (concat (concat B)))
         \<longleftrightarrow> (\<exists>i<length A. \<exists>k<length (voxels (A ! i)).
                g = voxels (A ! i) ! k \<and> b = voxels (B ! i) ! k)"
proof -
  have len: "length A = length B"
    using assms by (metis length_map shape_def)
  have sh: "map length (A ! i) = map length (B ! i)" if "i < length A" for i
    using assms that len by (metis nth_map shape_def)
  have lv: "length (voxels (A ! i)) = length (voxels (B ! i))" if "i < length A" for i
    by (rule voxels_length_shape [OF sh [OF that]])
  have ml: "map length (map voxels A) = map length (map voxels B)"
    by (rule nth_equalityI) (simp_all add: len lv)
  have "zip (concat (concat A)) (concat (concat B))
        = concat (map (\<lambda>(x, y). zip x y) (zip (map voxels A) (map voxels B)))"
    unfolding concat_concat_map [of A] concat_concat_map [of B]
    using zip_concat [OF ml] by (simp add: voxels_def [abs_def])
  then have "(g, b) \<in> set (zip (concat (concat A)) (concat (concat B)))
        \<longleftrightarrow> (\<exists>i<length A. (g, b) \<in> set (zip (voxels (A ! i)) (voxels (B ! i))))"
    by (auto simp: set_zip len in_set_conv_nth) (metis (no_types, lifting) len nth_map length_map)+
  also have "\<dots> \<longleftrightarrow> (\<exists>i<length A. \<exists>k<length (voxels (A ! i)).
                g = voxels (A ! i) ! k \<and> b = voxels (B ! i) ! k)"
    using in_zip_same_length [OF lv] by blast
  finally show ?thesis .
qed

lemma segment_to_body_of_set:
  "set (segment_to_body_of A B)
     = insert (0, 0) {p \<in> set (zip (concat (concat A)) (concat (concat B))). fst p \<noteq> 0}"
  by (auto simp: segment_to_body_of_def Let_def set_unique)

lemma segment_to_body_of_sorted: "sorted (segment_to_body_of A B)"
proof -
  have "sorted (filter (\<lambda>(g, b). g \<noteq> 0) (unique (zip (concat (concat A)) (concat (concat B)))))"
    using sorted_unique by (rule sorted_wrt_filter)
  then show ?thesis
    by (auto simp: segment_to_body_of_def Let_def)
qed

lemma repair_corners_returns:
  assumes "\<And>p. p \<in> set ov \<Longrightarrow> \<not> no_corner p \<and> 2 \<le> length (hd p)"
  shows "\<exists>out. repair_corners ov = Inr out \<and> length out = length ov \<and>
           (\<forall>i<length ov. map length (out ! i) = map length (ov ! i) \<and>
              (\<forall>k. 0 < k \<longrightarrow> voxels (out ! i) ! k = voxels (ov ! i) ! k))"
proof -
  have n1: "\<not> list_ex no_corner ov" using assms by (auto simp: list_ex_iff)
  have n2: "\<not> list_ex (\<lambda>p. length (hd p) < 2) ov" using assms by (fastforce simp: list_ex_iff)
  show ?thesis
  proof (cases "list_all (\<lambda>p. corner p = 0) ov \<and> count_zeros ov = length ov")
    case False
    then have "repair_corners ov = Inr ov"
      using n1 by (auto simp: repair_corners_def)
    then show ?thesis by simp
  next
    case True
    then have r: "repair_corners ov = Inr (map (\<lambda>p. set_corner (hd p ! 1) p) ov)"
      using n1 n2 by (simp add: repair_corners_def)
    have "map length (set_corner (hd p ! 1) p) = map length p
          \<and> (\<forall>k. 0 < k \<longrightarrow> voxels (set_corner (hd p ! 1) p) ! k = voxels p ! k)"
      if "p \<in> set ov" for p
      using assms [OF that] by (simp add: shape_set_corner voxels_set_corner)
    then show ?thesis
      unfolding r by simp
  qed
qed

lemma index_of_less: "x \<in> set xs \<Longrightarrow> index_of xs x < length xs"
  by (induction xs) auto

lemma index_of_inj: "x \<in> set xs \<Longrightarrow> index_of xs x = index_of xs y \<Longrightarrow> x = y"
  by (induction xs) (auto split: if_splits)

lemma set_first_appearances: "set (first_appearances xs) = {x \<in> set xs. x \<noteq> 0}"
  by (auto simp: first_appearances_def)

lemma relabeling_spec_helpers: "relabeling spec_helpers"
proof -
  have "\<exists>f. fst (relabel_from_one_spec a) = map (map f) a \<and> f 0 = 0
            \<and> inj_on f (insert 0 (set (voxels a)))
            \<and> (\<forall>x\<in>set (voxels a). f x \<le> length (snd (snd (relabel_from_one_spec a))))" for a
  proof -
    define ids where "ids = first_appearances (concat a)"
    define f where "f v = (if v = 0 then 0 else Suc (index_of ids v))" for v
    have mem: "x \<in> set ids" if "x \<in> set (voxels a)" "x \<noteq> 0" for x
      using that by (simp add: ids_def set_first_appearances voxels_def)
    have "fst (relabel_from_one_spec a) = map (map f) a"
      by (simp add: relabel_from_one_spec_def Let_def ids_def f_def [abs_def])
    moreover have "f 0 = 0" by (simp add: f_def)
    moreover have "inj_on f (insert 0 (set (voxels a)))"
    proof (rule inj_onI)
      fix x y
      assume x: "x \<in> insert 0 (set (voxels a))" and y: "y \<in> insert 0 (set (voxels a))"
        and e: "f x = f y"
      show "x = y"
      proof (cases "x = 0")
        case True
        with e show ?thesis by (simp add: f_def split: if_splits)
      next
        case False
        with e have ynz: "y \<noteq> 0" by (simp add: f_def split: if_splits)
        from False x have "x \<in> set ids" by (auto intro: mem)
        moreover from e False ynz have "index_of ids x = index_of ids y" by (simp add: f_def)
        ultimately show ?thesis by (rule index_of_inj)
      qed
    qed
    moreover have "f x \<le> length (snd (snd (relabel_from_one_spec a)))"
      if "x \<in> set (voxels a)" for x
    proof (cases "x = 0")
      case True
      then show ?thesis by (simp add: f_def)
    next
      case False
      from index_of_less [OF mem [OF that False]] show ?thesis
        by (simp add: f_def relabel_from_one_spec_def Let_def ids_def)
    qed
    ultimately show ?thesis by blast
  qed
  then show ?thesis
    by (simp add: relabeling_def spec_helpers_def remove_small_connected_components_spec_def)
qed

section \<open>The forward-map decoder\<close>

text \<open>
  C4, as the code has it. For a nonempty pair table, \<open>apply_segmentation_map\<close> builds the
  dense array of length (largest source id) + 1 filled with 0, stores the pairs in order
  (the last pair of a repeated source id stays) and reads it at every label. So a label
  that is at most the largest source id and is the source of no pair decodes to 0, and a
  label above the largest source id raises IndexError: the whole call fails. The spec's
  example is such a call: the table {(1,5),(2,7)} applied to [1,2,3] raises, because 3 is
  above the largest source id 2; applied to [1,2,0] it yields [5,7,0].
\<close>

theorem apply_segmentation_map_dense:
  assumes "sp_to_body_map \<noteq> []"
  shows "apply_segmentation_map superpixels sp_to_body_map =
     (if list_all (\<lambda>s. s \<le> Max (set (map fst sp_to_body_map))) (ravel superpixels)
      then Inr (map_ndarray
                  (\<lambda>s. case map_of (rev sp_to_body_map) s of None \<Rightarrow> 0 | Some b \<Rightarrow> b)
                  superpixels)
      else Inl IndexError)"
proof -
  define m where "m = Max (set (map fst sp_to_body_map))"
  define fm where "fm = scatter (replicate (m + 1) 0) sp_to_body_map"
  have am: "amax (map fst sp_to_body_map) = Inr m"
    unfolding m_def using assms by (intro amax_Max) simp
  have eq: "apply_segmentation_map superpixels sp_to_body_map = gather fm superpixels"
    unfolding apply_segmentation_map_def am fm_def by simp
  have len: "length fm = m + 1"
    unfolding fm_def by (simp add: length_scatter)
  have nth: "fm ! s = (case map_of (rev sp_to_body_map) s of None \<Rightarrow> 0 | Some b \<Rightarrow> b)"
    if "s \<le> m" for s
  proof -
    have lt: "s < m + 1" using that by simp
    have z: "replicate (m + 1) 0 ! s = (0::nat)"
      using lt by (rule nth_replicate)
    have "s < length (replicate (m + 1) (0::nat))" using lt by simp
    from scatter_nth [OF this, of sp_to_body_map] show ?thesis
      unfolding z fm_def .
  qed
  have all: "list_all (\<lambda>s. s < length fm) (ravel superpixels)
             = list_all (\<lambda>s. s \<le> m) (ravel superpixels)"
    unfolding len by (simp add: less_Suc_eq_le)
  show ?thesis
  proof (cases "list_all (\<lambda>s. s \<le> m) (ravel superpixels)")
    case True
    then have "\<forall>s \<in> set_ndarray superpixels. s \<le> m"
      by (simp add: list_all_iff set_ravel)
    then have "map_ndarray (\<lambda>s. fm ! s) superpixels =
               map_ndarray (\<lambda>s. case map_of (rev sp_to_body_map) s of None \<Rightarrow> 0 | Some b \<Rightarrow> b)
                 superpixels"
      by (intro ndarray.map_cong) (auto simp: nth)
    then show ?thesis
      using True all unfolding eq gather_def m_def [symmetric] by simp
  next
    case False
    then show ?thesis
      using all unfolding eq gather_def m_def [symmetric] by simp
  qed
qed

theorem apply_segmentation_map_dense_witness:
  "apply_segmentation_map (Axis [Scalar 1, Scalar 2, Scalar 0]) [(1, 5), (2, 7)]
     = Inr (Axis [Scalar 5, Scalar 7, Scalar 0])"
  using apply_segmentation_map_dense [of "[(1, 5), (2, 7)]" "Axis [Scalar 1, Scalar 2, Scalar 0]"]
  by simp

text \<open>The example of C4 as the spec states it: the call raises instead of yielding [5,7,0].\<close>

theorem apply_segmentation_map_example_raises:
  "apply_segmentation_map (Axis [Scalar 1, Scalar 2, Scalar 3]) [(1, 5), (2, 7)]
     = Inl IndexError"
  by code_simp

text \<open>
  C9, as the code has it. With an empty pair table \<open>apply_segmentation_map\<close> raises
  ValueError for every label array: the largest source id of an empty table does not
  exist, and nothing is returned.
\<close>

theorem apply_segmentation_map_empty_table:
  "apply_segmentation_map superpixels [] = Inl ValueError"
  by (simp add: apply_segmentation_map_def)

text \<open>C9 as the spec states it fails, for instance on the labels [1,2,3].\<close>

theorem apply_segmentation_map_empty_table_raises:
  "apply_segmentation_map (Axis [Scalar 1, Scalar 2, Scalar 3]) [] = Inl ValueError
   \<and> apply_segmentation_map (Axis [Scalar 1, Scalar 2, Scalar 3]) []
       \<noteq> Inr (Axis [Scalar 0, Scalar 0, Scalar 0])"
  by code_simp

section \<open>The plane relabeler\<close>

text \<open>
  C1 at the volume of two planes [[1]] and [[0]], with \<open>min_size = 0\<close>, no connected
  components and globally unique ids. The first plane has one id, so the second plane
  starts at 1, and \<open>relabeled_plane + start_id\<close> adds this 1 to the background voxel
  too: the output has the nonzero id 1 where the input was background.
\<close>

theorem serial_section_map_offsets_background:
  "serial_section_map spec_helpers [[[1]], [[0]]] 0 False True = Inr [[[1]], [[1]]]"
  by code_simp

text \<open>
  C2 at the volume of two planes [[1,1]] and [[0,1]], same parameters: the background
  voxel of the second plane becomes 1, the id of the first plane, so the two planes of the
  output share the nonzero id 1.
\<close>

theorem serial_section_map_shares_id:
  "serial_section_map spec_helpers [[[1, 1]], [[0, 1]]] 0 False True
     = Inr [[[1, 1]], [[1, 2]]]"
  by code_simp

text \<open>
  C8 at the same volume: relabeling the output [[1,1]], [[1,2]] again with the same
  parameters gives [[1,1]], [[2,3]], which is another volume.
\<close>

theorem serial_section_map_not_idempotent:
  "serial_section_map spec_helpers [[[1, 1]], [[0, 1]]] 0 False True
     = Inr [[[1, 1]], [[1, 2]]]
   \<and> serial_section_map spec_helpers [[[1, 1]], [[1, 2]]] 0 False True
     = Inr [[[1, 1]], [[2, 3]]]"
  by code_simp

section \<open>The background sentinel\<close>

text \<open>
  C7, as the code has it. Whenever \<open>raveler_serial_section_map\<close> returns, the volume it
  returns has a background voxel. When the relabeled volume has none, the voxel at row 0,
  column 0 of every plane is set to 0 and nothing else changes, so that every plane then
  has a background voxel. When the relabeled volume has a background voxel anywhere, it is
  returned as it is: the test is on the whole volume, not on each plane, and a plane
  without a background voxel stays so.
\<close>

theorem raveler_serial_section_map_sentinel:
  assumes "raveler_serial_section_map h nd_map min_size do_conn_comp globally_unique_ids = Inr out"
  shows "\<exists>v. serial_section_map h nd_map min_size do_conn_comp globally_unique_ids = Inr v \<and>
             (if any_zero v then out = v
              else out = map (set_corner 0) v
                   \<and> list_all (\<lambda>p. corner p = 0 \<and> 0 \<in> set (concat p)) out)
             \<and> any_zero out"
proof -
  from raveler_serial_section_map_Inr [OF assms] obtain v where
    v: "serial_section_map h nd_map min_size do_conn_comp globally_unique_ids = Inr v"
    and c: "if any_zero v then out = v
            else \<not> list_ex no_corner v \<and> out = map (set_corner 0) v"
    by blast
  have ne: "v \<noteq> []"
    using serial_section_map_Inr(1,2) [OF v] by auto
  show ?thesis
  proof (cases "any_zero v")
    case True
    with c v show ?thesis by auto
  next
    case False
    with c have nc: "\<not> list_ex no_corner v" and out: "out = map (set_corner 0) v" by auto
    have all: "list_all (\<lambda>p. corner p = 0 \<and> 0 \<in> set (concat p)) out"
      using nc set_corner_corner [of _ 0]
      by (auto simp: out list_all_iff list_ex_iff)
    have "any_zero out"
    proof -
      from ne obtain p where p: "p \<in> set out" by (cases v) (auto simp: out)
      with all have "0 \<in> set (concat p)" by (auto simp: list_all_iff)
      with p show ?thesis by (auto simp: any_zero_def)
    qed
    with v False out all show ?thesis by auto
  qed
qed

theorem raveler_serial_section_map_sentinel_witness:
  "raveler_serial_section_map spec_helpers [[[1, 2]], [[3, 4]]] 0 False False
     = Inr [[[0, 2]], [[0, 2]]]
   \<and> (\<exists>v. serial_section_map spec_helpers [[[1, 2]], [[3, 4]]] 0 False False = Inr v \<and>
          (if any_zero v then [[[0, 2]], [[0, 2]]] = v
           else [[[0, 2]], [[0, 2]]] = map (set_corner 0) v
                \<and> list_all (\<lambda>p. corner p = 0 \<and> 0 \<in> set (concat p)) [[[0, 2]], [[0, 2]]])
          \<and> any_zero [[[0, 2]], [[0, 2]]])"
proof -
  have h: "raveler_serial_section_map spec_helpers [[[1, 2]], [[3, 4]]] 0 False False
             = Inr [[[0, 2]], [[0, 2]]]"
    by code_simp
  from raveler_serial_section_map_sentinel [OF h] h show ?thesis by blast
qed

text \<open>
  C7 as the spec states it fails: of the two planes [[0]] and [[1]] the first has a
  background voxel, so nothing is forced, and the second plane of the output has none.
\<close>

theorem raveler_serial_section_map_plane_without_background:
  "raveler_serial_section_map spec_helpers [[[0]], [[1]]] 0 False False = Inr [[[0]], [[1]]]
   \<and> 0 \<notin> set (concat [[1::nat]])"
  by code_simp

section \<open>The hierarchy builder\<close>

text \<open>
  C5 at the superpixel and body volumes that are both the two planes [[1,1,1]] and
  [[0,1,0]], with \<open>min_size = 0\<close> and no connected components. Superpixels and bodies
  are the same volume, so every superpixel lies in one body. The table from intermediate
  ids to bodies starts with (0, 0) and lists the distinct pairs with a nonzero mid id, as
  C5 says, but the mid id 1 stands in it with the body 0 and with the body 1: the id 1 of
  the first plane is also what the background of the second plane has become.
\<close>

theorem segs_to_raveler_mid_id_with_two_bodies:
  "segs_to_raveler spec_helpers [[[1, 1, 1]], [[0, 1, 0]]] [[[1, 1, 1]], [[0, 1, 0]]] 0 False None
     = Inr ([[[1, 1, 1]], [[0, 1, 0]]],
            [(0, 1, 0), (0, 1, 1), (1, 0, 0), (1, 1, 2)],
            [(0, 0), (1, 0), (1, 1), (2, 1)])"
  by code_simp

text \<open>
  C6. The table from fine ids to intermediate ids that \<open>segs_to_raveler\<close> returns is the
  concatenation, in plane order, of the per-plane tables of section 4.3, each listed in
  increasing order: for the plane number \<open>i\<close>, the mid-id plane zeroed where the fine-id
  plane is 0, and then the distinct triples (i, fine id, mid id) over the voxels where the
  fine id is nonzero or the masked mid id is zero.
\<close>

theorem segs_to_raveler_sp_to_segment:
  assumes "segs_to_raveler h sps bodies min_size do_conn_comp sps_given
             = Inr (sps_out, sp_to_segment, segment_to_body)"
  shows "\<exists>segment_map.
           raveler_serial_section_map h bodies min_size do_conn_comp True = Inr segment_map
         \<and> length segment_map = length bodies
         \<and> sp_to_segment =
             concat (map (\<lambda>i. sorted_list_of_set
                                 (fine_to_mid_plane_spec i (sps_out ! i) (segment_map ! i)))
                       [0..<min (length sps_out) (length bodies)])"
proof -
  from segs_to_raveler_Inr [OF assms] obtain segment_map where
    sm: "raveler_serial_section_map h bodies min_size do_conn_comp True = Inr segment_map"
    and st: "sp_to_segment_of sps_out segment_map bodies = Inr sp_to_segment"
    by blast
  have len: "length segment_map = length bodies"
    by (rule length_raveler_serial_section_map [OF sm])
  define planes where "planes = zip sps_out (zip segment_map bodies)"
  have lp: "length planes = min (length sps_out) (length bodies)"
    by (simp add: planes_def len)
  have "sp_to_segment =
        concat (map (\<lambda>(i, sp_map_i, segment_map_i, body_map_i).
                        sp_to_segment_plane i sp_map_i segment_map_i) (enumerate 0 planes))"
    using st unfolding sp_to_segment_of_def Let_def planes_def [symmetric]
    by (auto split: if_splits)
  also have "map (\<lambda>(i, sp_map_i, segment_map_i, body_map_i).
                        sp_to_segment_plane i sp_map_i segment_map_i) (enumerate 0 planes)
             = map (\<lambda>i. sp_to_segment_plane i (fst (planes ! i)) (fst (snd (planes ! i))))
                 [0..<length planes]"
    by (rule nth_equalityI) (simp_all add: nth_enumerate_eq split: prod.splits)
  also have "\<dots> = map (\<lambda>i. sorted_list_of_set
                                 (fine_to_mid_plane_spec i (sps_out ! i) (segment_map ! i)))
                       [0..<min (length sps_out) (length bodies)]"
    unfolding lp
    by (rule map_cong) (simp_all add: planes_def len sp_to_segment_plane_spec)
  finally show ?thesis using sm len by blast
qed

theorem segs_to_raveler_sp_to_segment_witness:
  "segs_to_raveler spec_helpers [[[0, 1, 2]]] [[[0, 3, 3]]] 0 False None
     = Inr ([[[0, 1, 2]]], [(0, 0, 0), (0, 1, 1), (0, 2, 1)], [(0, 0), (1, 3)])
   \<and> (\<exists>segment_map.
           raveler_serial_section_map spec_helpers [[[0, 3, 3]]] 0 False True = Inr segment_map
         \<and> length segment_map = length [[[0 :: nat, 3, 3]]]
         \<and> [(0, 0, 0), (0, 1, 1), (0, 2, 1)] =
             concat (map (\<lambda>i. sorted_list_of_set
                                 (fine_to_mid_plane_spec i ([[[0, 1, 2]]] ! i) (segment_map ! i)))
                       [0..<min (length [[[0 :: nat, 1, 2]]]) (length [[[0 :: nat, 3, 3]]])]))"
proof -
  have h: "segs_to_raveler spec_helpers [[[0, 1, 2]]] [[[0, 3, 3]]] 0 False None
     = Inr ([[[0, 1, 2]]], [(0, 0, 0), (0, 1, 1), (0, 2, 1)], [(0, 0), (1, 3)])"
    by code_simp
  from segs_to_raveler_sp_to_segment [OF h] h show ?thesis by blast
qed

text \<open>
  C10 at the superpixel planes [[1,1,1]], [[2,2,3]] and the body planes [[1,1,1]],
  [[0,0,1]], with \<open>min_size = 0\<close>, no connected components and no superpixel map given;
  every superpixel lies in one body. The superpixel volume is relabeled plane by plane
  with the offset 0, so the fine id 1 is used in both planes, as C10 says. The body volume
  is relabeled with globally unique ids, and still the intermediate id 1 stands in the
  rows of plane 0 and of plane 1 of the table from fine ids to intermediate ids: it is the
  id of the body of plane 0 and what the background of plane 1 has become.
\<close>

theorem segs_to_raveler_mid_id_in_two_planes:
  "segs_to_raveler spec_helpers [[[1, 1, 1]], [[2, 2, 3]]] [[[1, 1, 1]], [[0, 0, 1]]] 0 False None
     = Inr ([[[0, 1, 1]], [[0, 1, 2]]],
            [(0, 0, 0), (0, 1, 1), (1, 0, 0), (1, 1, 1), (1, 2, 2)],
            [(0, 0), (1, 0), (1, 1), (2, 1)])"
  by code_simp

section \<open>The round trip\<close>

text \<open>
  C3, as the code has it. Let the superpixel and body volumes have the same shape, with
  at least one plane and a first row of at least two voxels in each plane, and let them
  fit: within each plane no superpixel lies in two bodies, and every voxel without a
  superpixel is background in the body volume. With \<open>min_size = 0\<close>, no connected
  components and helpers that relabel as section 4.1 says, \<open>segs_to_raveler\<close> returns
  a triple, \<open>raveler_to_labeled_volume\<close> (without watershed) returns a volume of the
  same shape from it, and this volume equals the body volume at every voxel other than
  the corner (voxel 0 of a plane) at which the body id is nonzero or the superpixel id is
  0. Nothing is said of the corner of a plane, nor of a voxel that has a superpixel and is
  background in the body volume.
\<close>

theorem raveler_round_trip:
  assumes rel: "relabeling h"
    and sh: "shape sps = shape bodies"
    and roomy: "roomy sps"
    and fit: "superpixels_fit sps bodies"
  shows "\<exists>sps_out sp_to_segment segment_to_body out.
           segs_to_raveler h sps bodies 0 False None
             = Inr (sps_out, sp_to_segment, segment_to_body)
         \<and> raveler_to_labeled_volume h sps_out sp_to_segment segment_to_body False None
             = Inr out
         \<and> shape out = shape bodies
         \<and> (\<forall>i<length bodies. \<forall>k<length (voxels (bodies ! i)). 0 < k \<longrightarrow>
               (voxels (bodies ! i) ! k \<noteq> 0 \<or> voxels (sps ! i) ! k = 0) \<longrightarrow>
               voxels (out ! i) ! k = voxels (bodies ! i) ! k)"
proof -
  define M where "M = length sps"
  have lb: "length bodies = M"
    using sh by (metis M_def length_map shape_def)
  have M: "0 < M" using roomy by (simp add: roomy_def M_def)
  have shi: "map length (sps ! i) = map length (bodies ! i)" if "i < M" for i
    using sh that lb by (metis M_def nth_map shape_def)
  have big: "sps ! i \<noteq> [] \<and> 2 \<le> length (hd (sps ! i))" if "i < M" for i
    using roomy that by (simp add: roomy_def M_def list_all_length)
  have ncs: "\<not> no_corner (sps ! i)" if "i < M" for i
    using big [OF that] by (cases "sps ! i") (auto simp: no_corner_def)
  have ncb: "\<not> no_corner (bodies ! i)" if "i < M" for i
    using ncs [OF that] no_corner_shape [OF shi [OF that]] by simp
  have nc_sps: "list_all (\<lambda>p. \<not> no_corner p) sps"
    using ncs by (simp add: list_all_length M_def)
  have nc_bod: "list_all (\<lambda>p. \<not> no_corner p) bodies"
    using ncb lb by (simp add: list_all_length)
  have sps_ne: "sps \<noteq> []" and bod_ne: "bodies \<noteq> []"
    using M lb by (auto simp: M_def)
  define S where "S i = voxels (sps ! i)" for i
  define B where "B i = voxels (bodies ! i)" for i
  have lSB: "length (S i) = length (B i)" if "i < M" for i
    unfolding S_def B_def by (rule voxels_length_shape [OF shi [OF that]])
  have Sne: "S i \<noteq> []" if "i < M" for i
    unfolding S_def by (rule voxels_nonempty [OF ncs [OF that]])
  have fit_sv: "b = b'" if "i < M" "(s, b) \<in> set (zip (S i) (B i))" "(s, b') \<in> set (zip (S i) (B i))"
    for i s b b'
  proof -
    have "single_valued (set (zip (S i) (B i)))"
      using fit that(1) lb
      by (simp add: superpixels_fit_def list_all_length M_def S_def B_def)
    with that(2,3) show ?thesis by (auto simp: single_valued_def)
  qed
  have fit_0: "b = 0" if "i < M" "(0, b) \<in> set (zip (S i) (B i))" for i b
  proof -
    have "list_all (\<lambda>(x, y). x = 0 \<longrightarrow> y = 0) (zip (S i) (B i))"
      using fit that(1) lb
      by (simp add: superpixels_fit_def list_all_length M_def S_def B_def)
    with that(2) show ?thesis by (auto simp: list_all_iff)
  qed
  from relabeling_choice [OF rel] obtain rl where
    rl: "\<And>a. relabeled_of h 0 False a = map (map (rl a)) a"
    and rl0: "\<And>a. rl a 0 = 0"
    and rli: "\<And>a. inj_on (rl a) (insert 0 (set (voxels a)))"
    and rln: "\<And>a x. x \<in> set (voxels a) \<Longrightarrow> rl a x \<le> nids_of h 0 False a"
    by blast
  have rl_eq: "x = y" if "rl a x = rl a y" "x \<in> insert 0 (set (voxels a))"
    "y \<in> insert 0 (set (voxels a))" for a x y
    using rli [of a] that by (auto simp: inj_on_def)
  define ns where "ns = map (nids_of h 0 False) bodies"
  define off where "off i = sum_list (take i ns)" for i
  define F where "F i = rl (sps ! i)" for i
  define G where "G i = (\<lambda>x. rl (bodies ! i) x + off i)" for i

  from raveler_serial_section_map_upto_corner [of h rl sps False, OF rl sps_ne nc_sps]
  obtain sps_out where
    so: "raveler_serial_section_map h sps 0 False False = Inr sps_out"
    and lso: "length sps_out = M"
    and so_all: "\<forall>i<length sps. map length (sps_out ! i) = map length (sps ! i) \<and>
              upto_corner (\<lambda>x. rl (sps ! i) x + (if False then
                   sum_list (take i (map (nids_of h 0 False) sps)) else 0))
                (voxels (sps ! i)) (voxels (sps_out ! i))"
    unfolding M_def by blast
  from raveler_serial_section_map_upto_corner [of h rl bodies True, OF rl bod_ne nc_bod]
  obtain segment_map where
    sm: "raveler_serial_section_map h bodies 0 False True = Inr segment_map"
    and lsm: "length segment_map = M"
    and sm_all: "\<forall>i<length bodies. map length (segment_map ! i) = map length (bodies ! i) \<and>
              upto_corner (\<lambda>x. rl (bodies ! i) x + (if True then
                   sum_list (take i (map (nids_of h 0 False) bodies)) else 0))
                (voxels (bodies ! i)) (voxels (segment_map ! i))"
    unfolding lb [symmetric] by blast
  define U where "U i = voxels (sps_out ! i)" for i
  define V where "V i = voxels (segment_map ! i)" for i
  have sh_so: "map length (sps_out ! i) = map length (sps ! i)" if "i < M" for i
    using so_all that by (simp add: M_def)
  have sh_sm: "map length (segment_map ! i) = map length (bodies ! i)" if "i < M" for i
    using sm_all that lb by simp
  have upU: "upto_corner (F i) (S i) (U i)" if "i < M" for i
    using so_all that by (simp add: M_def F_def S_def U_def)
  have upV: "upto_corner (G i) (B i) (V i)" if "i < M" for i
    using sm_all that lb by (simp add: G_def B_def V_def off_def ns_def)
  have lU: "length (U i) = length (S i)" and lV: "length (V i) = length (B i)" if "i < M" for i
    using upU [OF that] upV [OF that] by (simp_all add: upto_corner_def)
  have Uk: "U i ! k = F i (S i ! k) \<or> (k = 0 \<and> U i ! k = 0)" if "i < M" "k < length (S i)" for i k
    using upU [OF that(1)] that(2) by (simp add: upto_corner_def)
  have Vk: "V i ! k = G i (B i ! k) \<or> (k = 0 \<and> V i ! k = 0)" if "i < M" "k < length (S i)" for i k
    using upV [OF that(1)] that(2) lSB [OF that(1)] by (simp add: upto_corner_def)

  define Q where "Q i = map mask_segment (zip (U i) (V i))" for i
  define X where "X i = unique (Q i)" for i
  define t1 where "t1 = concat (map (\<lambda>j. map (Pair j) (X j)) [0..<M])"
  define t2 where "t2 = segment_to_body_of segment_map bodies"
  have same: "same_shape (sps_out ! i) (segment_map ! i)" if "i < M" for i
    using sh_so [OF that] sh_sm [OF that] shi [OF that] by (simp add: same_shape_def)
  have t1_eq: "sp_to_segment_of sps_out segment_map bodies = Inr t1"
    using sp_to_segment_of_returns [OF lso lsm lb M same]
    by (simp add: t1_def X_def Q_def U_def V_def)
  have build: "segs_to_raveler h sps bodies 0 False None = Inr (sps_out, t1, t2)"
    by (simp add: segs_to_raveler_def so sm t1_eq t2_def)

  have inX: "(u, g) \<in> set (X i) \<longleftrightarrow>
             (\<exists>k<length (S i). u = U i ! k \<and> g = V i ! k * (if U i ! k \<noteq> 0 then 1 else 0))"
    if "i < M" for i u g
  proof -
    have l: "length (U i) = length (V i)" using lU lV lSB that by simp
    have "(u, g) \<in> set (X i) \<longleftrightarrow> (\<exists>p\<in>set (zip (U i) (V i)). (u, g) = mask_segment p)"
      by (auto simp: X_def Q_def set_unique)
    also have "\<dots> \<longleftrightarrow> (\<exists>k<length (U i). (u, g) = mask_segment (U i ! k, V i ! k))"
      using in_zip_same_length [OF l] by (metis prod.collapse)
    finally show ?thesis
      by (simp add: mask_segment_def lU [OF that])
  qed
  have sh_sm_vol: "shape segment_map = shape bodies"
    unfolding shape_def by (rule nth_equalityI) (simp_all add: lsm lb sh_sm)
  have inVP: "(g, b) \<in> set (zip (concat (concat segment_map)) (concat (concat bodies)))
              \<longleftrightarrow> (\<exists>i<M. \<exists>k<length (S i). g = V i ! k \<and> b = B i ! k)" for g b
  proof -
    have lVS: "length (voxels (segment_map ! i)) = length (S i)" if "i < M" for i
      using lV [OF that] lSB [OF that] by (simp add: V_def)
    show ?thesis
      unfolding volume_pairs_iff [OF sh_sm_vol] lsm V_def B_def
      by (simp add: lVS cong: conj_cong)
  qed
  have int2: "(g, b) \<in> set t2 \<longleftrightarrow>
              (g = 0 \<and> b = 0) \<or> (g \<noteq> 0 \<and> (\<exists>i<M. \<exists>k<length (S i). g = V i ! k \<and> b = B i ! k))"
    for g b
    unfolding t2_def segment_to_body_of_set using inVP [of g b] by auto
  have sorted_t2: "sorted t2" unfolding t2_def by (rule segment_to_body_of_sorted)
  have sorted_X: "sorted (X i)" for i unfolding X_def by (rule sorted_unique)

  have Xne: "X i \<noteq> []" if "i < M" for i
  proof -
    from Sne [OF that] have "0 < length (S i)" by simp
    with inX [OF that] have "\<exists>u g. (u, g) \<in> set (X i)" by blast
    then show ?thesis by auto
  qed
  have t2ne: "t2 \<noteq> []" by (simp add: t2_def segment_to_body_of_def Let_def)
  have range1: "u \<in> fst ` set (X i)" if "i < M" "u \<in> set (voxels (sps_out ! i))" for i u
  proof -
    from that(2) obtain k where "k < length (U i)" "u = U i ! k"
      by (auto simp: U_def in_set_conv_nth)
    with inX [OF that(1)] lU [OF that(1)]
    have "(u, V i ! k * (if U i ! k \<noteq> 0 then 1 else 0)) \<in> set (X i)" by auto
    then show ?thesis by force
  qed
  have range2: "g \<in> fst ` set t2" if "i < M" "(u, g) \<in> set (X i)" for i u g
  proof (cases "g = 0")
    case True
    have "(0, 0) \<in> set t2" by (simp add: int2)
    with True show ?thesis by force
  next
    case False
    from that(2) inX [OF that(1)] obtain k where
      k: "k < length (S i)" "g = V i ! k * (if U i ! k \<noteq> 0 then 1 else 0)" by blast
    with False have "g = V i ! k" by (auto split: if_splits)
    with False k(1) that(1) have "(g, B i ! k) \<in> set t2" by (auto simp: int2)
    then show ?thesis by force
  qed
  define ov where
    "ov = map (\<lambda>i. map (map (\<lambda>u. last_value t2 (last_value (X i) u))) (sps_out ! i)) [0..<M]"
  have decode: "raveler_to_labeled_volume h sps_out t1 t2 False None = repair_corners ov"
    unfolding ov_def
    by (rule raveler_to_labeled_volume_planes [OF t1_def lso M Xne t2ne range1 range2])
  have lov: "length ov = M" by (simp add: ov_def)
  have ov_i: "ov ! i = map (map (\<lambda>u. last_value t2 (last_value (X i) u))) (sps_out ! i)"
    if "i < M" for i using that by (simp add: ov_def)
  have sh_ov: "map length (ov ! i) = map length (sps ! i)" if "i < M" for i
  proof -
    have "map length (map (map f) p) = map length p" for f :: "nat \<Rightarrow> nat" and p :: plane
      by (induction p) auto
    then show ?thesis by (simp only: ov_i [OF that] sh_so [OF that])
  qed
  have ov_ok: "\<not> no_corner p \<and> 2 \<le> length (hd p)" if "p \<in> set ov" for p
  proof -
    from that lov obtain i where i: "i < M" "p = ov ! i" by (auto simp: in_set_conv_nth)
    have "\<not> no_corner p" using no_corner_shape [OF sh_ov [OF i(1)]] ncs [OF i(1)] i(2) by simp
    moreover have "length (hd p) = length (hd (sps ! i))"
      using sh_ov [OF i(1)] big [OF i(1)] i(2) by (cases p; cases "sps ! i") auto
    ultimately show ?thesis using big [OF i(1)] by simp
  qed
  from repair_corners_returns [of ov, OF ov_ok] obtain out where
    out: "repair_corners ov = Inr out" and lout: "length out = M"
    and out_i: "\<And>i. i < M \<Longrightarrow> map length (out ! i) = map length (ov ! i) \<and>
              (\<forall>k. 0 < k \<longrightarrow> voxels (out ! i) ! k = voxels (ov ! i) ! k)"
    unfolding lov by blast
  have sh_out: "shape out = shape bodies"
    unfolding shape_def
    by (rule nth_equalityI) (simp_all add: lout lb out_i sh_ov shi)
  have vox_ov: "voxels (ov ! i) ! k = last_value t2 (last_value (X i) (U i ! k))"
    if "i < M" "k < length (S i)" for i k
    using that lU [OF that(1)] by (simp add: ov_i [OF that(1)] voxels_map U_def)

  have main: "last_value t2 (last_value (X i) (U i ! k)) = B i ! k"
    if i: "i < M" and k: "k < length (S i)" and k0: "0 < k"
      and guard: "B i ! k \<noteq> 0 \<or> S i ! k = 0" for i k
  proof -
    have kB: "k < length (B i)" using k lSB [OF i] by simp
    have pair: "(S i ! k, B i ! k) \<in> set (zip (S i) (B i))"
      using k lSB [OF i] by (auto simp: in_zip_same_length)
    have sin: "S i ! k \<in> set (voxels (sps ! i))" using k by (simp add: S_def)
    have bin: "B i ! k \<in> set (voxels (bodies ! i))" using kB by (simp add: B_def)
    have Uk': "U i ! k = F i (S i ! k)" using Uk [OF i k] k0 by simp
    have Vk': "V i ! k = G i (B i ! k)" using Vk [OF i k] k0 by simp
    show ?thesis
    proof (cases "S i ! k = 0")
      case True
      with pair fit_0 [OF i] have b0: "B i ! k = 0" by simp
      have u0: "U i ! k = 0" using Uk' True by (simp add: F_def rl0)
      have in0: "(0, 0) \<in> set (X i)"
        using inX [OF i, of 0 0] k u0 by auto
      have "g = 0" if "(0, g) \<in> set (X i)" for g
        using that inX [OF i, of 0 g] by auto
      with last_value_sorted_max [OF sorted_X in0] have l1: "last_value (X i) 0 = 0" by blast
      have "(0, 0) \<in> set t2" by (simp add: int2)
      moreover have "b = 0" if "(0, b) \<in> set t2" for b
        using that by (simp add: int2)
      ultimately have "last_value t2 0 = 0"
        using last_value_sorted_max [OF sorted_t2, of 0 0] by blast
      with l1 u0 b0 show ?thesis by simp
    next
      case False
      with guard have bnz: "B i ! k \<noteq> 0" by simp
      define s where "s = S i ! k"
      define b where "b = B i ! k"
      define u where "u = F i s"
      define g where "g = G i b"
      have unz: "u \<noteq> 0"
      proof
        assume "u = 0"
        then have "rl (sps ! i) s = rl (sps ! i) 0" by (simp add: u_def F_def rl0)
        from rl_eq [OF this] sin have "s = 0" by (simp add: s_def)
        with False show False by (simp add: s_def)
      qed
      have rb: "rl (bodies ! i) b \<noteq> 0"
      proof
        assume "rl (bodies ! i) b = 0"
        then have "rl (bodies ! i) b = rl (bodies ! i) 0" by (simp add: rl0)
        from rl_eq [OF this] bin have "b = 0" by (simp add: b_def)
        with bnz show False by (simp add: b_def)
      qed
      then have gnz: "g \<noteq> 0" by (simp add: g_def G_def)
      have ug: "(u, g) \<in> set (X i)"
        using inX [OF i, of u g] k Uk' Vk' unz by (auto simp: u_def g_def s_def b_def)
      have gmax: "g' \<le> g" if "(u, g') \<in> set (X i)" for g'
      proof -
        from that inX [OF i] obtain k' where
          k': "k' < length (S i)" "u = U i ! k'"
              "g' = V i ! k' * (if U i ! k' \<noteq> 0 then 1 else 0)" by blast
        from Uk [OF i k'(1)] k'(2) unz have "F i (S i ! k') = F i s" by (auto simp: u_def)
        then have "rl (sps ! i) (S i ! k') = rl (sps ! i) s" by (simp add: F_def)
        from rl_eq [OF this] k'(1) sin have ss: "S i ! k' = s" by (simp add: S_def s_def)
        have "(s, B i ! k') \<in> set (zip (S i) (B i))"
          using k'(1) lSB [OF i] ss by (auto simp: in_zip_same_length)
        with fit_sv [OF i] pair have "B i ! k' = b" by (simp add: s_def b_def)
        with Vk [OF i k'(1)] have "V i ! k' = g \<or> V i ! k' = 0" by (auto simp: g_def)
        with k'(3) show ?thesis by (auto split: if_splits)
      qed
      have l1: "last_value (X i) u = g"
        by (rule last_value_sorted_max [OF sorted_X ug gmax])
      have "g = V i ! k \<and> b = B i ! k" using Vk' by (simp add: g_def b_def)
      with i k have "\<exists>i'<M. \<exists>k'<length (S i'). g = V i' ! k' \<and> b = B i' ! k'" by blast
      then have gb: "(g, b) \<in> set t2"
        using gnz by (simp add: int2)
      have bmax: "b' \<le> b" if "(g, b') \<in> set t2" for b'
      proof -
        from that gnz int2 [of g b'] obtain j k' where
          j: "j < M" and k': "k' < length (S j)" and gv: "g = V j ! k'" and bv: "b' = B j ! k'"
          by auto
        from Vk [OF j k'] gv gnz have e: "g = G j b'" by (auto simp: bv)
        have b'in: "b' \<in> set (voxels (bodies ! j))"
          using k' lSB [OF j] by (simp add: bv B_def)
        show ?thesis
        proof (cases "rl (bodies ! j) b' = 0")
          case True
          then have "rl (bodies ! j) b' = rl (bodies ! j) 0" by (simp add: rl0)
          from rl_eq [OF this] b'in have "b' = 0" by simp
          then show ?thesis by simp
        next
          case False
          have nsj: "ns ! j = nids_of h 0 False (bodies ! j)" using j lb by (simp add: ns_def)
          have nsi: "ns ! i = nids_of h 0 False (bodies ! i)" using i lb by (simp add: ns_def)
          have "sum_list (take i ns) + rl (bodies ! i) b = sum_list (take j ns) + rl (bodies ! j) b'"
            using e by (simp add: g_def G_def off_def)
          from offsets_disjoint [OF _ _ _ _ _ _ this] i j lb rb False
            rln [OF bin] rln [OF b'in]
          have ij: "i = j" by (simp add: ns_def b_def)
          with e have "rl (bodies ! i) b' = rl (bodies ! i) b" by (simp add: g_def G_def)
          from rl_eq [OF this] b'in bin ij have "b' = b" by (simp add: b_def)
          then show ?thesis by simp
        qed
      qed
      have "last_value t2 g = b"
        by (rule last_value_sorted_max [OF sorted_t2 gb bmax])
      with l1 Uk' show ?thesis by (simp add: u_def s_def b_def)
    qed
  qed
  have concl: "voxels (out ! i) ! k = voxels (bodies ! i) ! k"
    if "i < length bodies" "k < length (voxels (bodies ! i))" "0 < k"
      "voxels (bodies ! i) ! k \<noteq> 0 \<or> voxels (sps ! i) ! k = 0" for i k
  proof -
    have i: "i < M" using that(1) lb by simp
    have k: "k < length (S i)" using that(2) lSB [OF i] by (simp add: B_def)
    have "voxels (out ! i) ! k = voxels (ov ! i) ! k" using out_i [OF i] that(3) by simp
    also have "\<dots> = last_value t2 (last_value (X i) (U i ! k))" by (rule vox_ov [OF i k])
    also have "\<dots> = B i ! k"
      using main [OF i k that(3)] that(4) by (simp add: B_def S_def)
    finally show ?thesis by (simp add: B_def)
  qed
  from build decode out sh_out concl show ?thesis by auto
qed

theorem raveler_round_trip_witness:
  "relabeling spec_helpers
   \<and> shape [[[1, 1, 2], [1, 2, 2]], [[0, 3, 3], [4, 4, 0]]]
       = shape [[[5, 5, 5], [5, 5, 5]], [[0, 6, 6], [6, 6, 0]]]
   \<and> roomy [[[1, 1, 2], [1, 2, 2]], [[0, 3, 3], [4, 4, 0]]]
   \<and> superpixels_fit [[[1, 1, 2], [1, 2, 2]], [[0, 3, 3], [4, 4, 0]]]
                       [[[5, 5, 5], [5, 5, 5]], [[0, 6, 6], [6, 6, 0]]]
   \<and> (\<exists>sps_out sp_to_segment segment_to_body out.
           segs_to_raveler spec_helpers [[[1, 1, 2], [1, 2, 2]], [[0, 3, 3], [4, 4, 0]]]
               [[[5, 5, 5], [5, 5, 5]], [[0, 6, 6], [6, 6, 0]]] 0 False None
             = Inr (sps_out, sp_to_segment, segment_to_body)
         \<and> raveler_to_labeled_volume spec_helpers sps_out sp_to_segment segment_to_body
               False None
             = Inr out
         \<and> shape out = shape [[[5, 5, 5], [5, 5, 5]], [[0, 6, 6], [6, 6, 0]]]
         \<and> (\<forall>i<length [[[5, 5, 5], [5, 5, 5]], [[0, 6, 6], [6, 6, 0 :: nat]]].
              \<forall>k<length (voxels ([[[5, 5, 5], [5, 5, 5]], [[0, 6, 6], [6, 6, 0]]] ! i)).
                0 < k \<longrightarrow>
                (voxels ([[[5, 5, 5], [5, 5, 5]], [[0, 6, 6], [6, 6, 0]]] ! i) ! k \<noteq> 0
                 \<or> voxels ([[[1, 1, 2], [1, 2, 2]], [[0, 3, 3], [4, 4, 0]]] ! i) ! k = 0)
                \<longrightarrow>
                voxels (out ! i) ! k
                  = voxels ([[[5, 5, 5], [5, 5, 5]], [[0, 6, 6], [6, 6, 0]]] ! i) ! k))
   \<and> segs_to_raveler spec_helpers [[[1, 1, 2], [1, 2, 2]], [[0, 3, 3], [4, 4, 0]]]
         [[[5, 5, 5], [5, 5, 5]], [[0, 6, 6], [6, 6, 0]]] 0 False None
       = Inr ([[[1, 1, 2], [1, 2, 2]], [[0, 1, 1], [2, 2, 0]]],
              [(0, 1, 0), (0, 1, 1), (0, 2, 1), (1, 0, 0), (1, 1, 2), (1, 2, 2)],
              [(0, 0), (1, 0), (1, 5), (2, 6)])
   \<and> raveler_to_labeled_volume spec_helpers
         [[[1, 1, 2], [1, 2, 2]], [[0, 1, 1], [2, 2, 0]]]
         [(0, 1, 0), (0, 1, 1), (0, 2, 1), (1, 0, 0), (1, 1, 2), (1, 2, 2)]
         [(0, 0), (1, 0), (1, 5), (2, 6)] False None
       = Inr [[[5, 5, 5], [5, 5, 5]], [[0, 6, 6], [6, 6, 0]]]"
proof -
  have a: "relabeling spec_helpers" by (rule relabeling_spec_helpers)
  have b: "shape [[[1, 1, 2], [1, 2, 2]], [[0, 3, 3], [4, 4, 0]]]
       = shape [[[5, 5, 5], [5, 5, 5]], [[0, 6, 6], [6, 6, 0]]]"
    by (simp add: shape_def)
  have c: "roomy [[[1, 1, 2], [1, 2, 2]], [[0, 3, 3], [4, 4, 0]]]"
    by (simp add: roomy_def)
  have d: "superpixels_fit [[[1, 1, 2], [1, 2, 2]], [[0, 3, 3], [4, 4, 0]]]
                       [[[5, 5, 5], [5, 5, 5]], [[0, 6, 6], [6, 6, 0]]]"
    by (auto simp: superpixels_fit_def voxels_def single_valued_def)
  have e: "segs_to_raveler spec_helpers [[[1, 1, 2], [1, 2, 2]], [[0, 3, 3], [4, 4, 0]]]
         [[[5, 5, 5], [5, 5, 5]], [[0, 6, 6], [6, 6, 0]]] 0 False None
       = Inr ([[[1, 1, 2], [1, 2, 2]], [[0, 1, 1], [2, 2, 0]]],
              [(0, 1, 0), (0, 1, 1), (0, 2, 1), (1, 0, 0), (1, 1, 2), (1, 2, 2)],
              [(0, 0), (1, 0), (1, 5), (2, 6)])"
    by code_simp
  have f: "raveler_to_labeled_volume spec_helpers
         [[[1, 1, 2], [1, 2, 2]], [[0, 1, 1], [2, 2, 0]]]
         [(0, 1, 0), (0, 1, 1), (0, 2, 1), (1, 0, 0), (1, 1, 2), (1, 2, 2)]
         [(0, 0), (1, 0), (1, 5), (2, 6)] False None
       = Inr [[[5, 5, 5], [5, 5, 5]], [[0, 6, 6], [6, 6, 0]]]"
    by code_simp
  from raveler_round_trip [OF a b c d] a b c d e f show ?thesis by blast
qed

text \<open>
  C3 as the spec states it fails. In the single plane [[0,0,1]] of superpixels over the
  plane [[0,1,1]] of bodies, the middle voxel belongs to body 1 and to no superpixel;
  \<open>segs_to_raveler\<close> zeroes the intermediate id where the superpixel id is 0, and the
  volume read back is [[0,0,1]]: it differs from the body volume at row 0, column 1.
\<close>

theorem raveler_round_trip_loses_voxel_without_superpixel:
  "segs_to_raveler spec_helpers [[[0, 0, 1]]] [[[0, 1, 1]]] 0 False None
     = Inr ([[[0, 0, 1]]], [(0, 0, 0), (0, 1, 1)], [(0, 0), (1, 1)])
   \<and> raveler_to_labeled_volume spec_helpers
         [[[0, 0, 1]]] [(0, 0, 0), (0, 1, 1)] [(0, 0), (1, 1)] False None
     = Inr [[[0, 0, 1]]]"
  by code_simp

end
